theory Spec2Isabelle
  imports Complex_Main "HOL-Library.AList"
begin

section \<open>Calendar dates\<close>

text \<open>
  A \<^verbatim>\<open>datetime.date\<close> is modelled by its proleptic Gregorian ordinal
  (\<^verbatim>\<open>date.toordinal()\<close>): day 1 is 0001-01-01 (\<^verbatim>\<open>date.min\<close>), day 3652059 is
  9999-12-31 (\<^verbatim>\<open>date.max\<close>). Adding or subtracting a \<^verbatim>\<open>timedelta\<close> that leaves this
  range raises \<^verbatim>\<open>OverflowError\<close>; so does building a \<^verbatim>\<open>timedelta\<close> of more than
  999999999 days, which always leaves the range as well.
\<close>

type_synonym date = int

datatype error = OverflowError | KeyError | IndexError

definition MINORD :: int where
  "MINORD = 1"

definition MAXORD :: int where
  "MAXORD = 3652059"

definition valid_date :: "date \<Rightarrow> bool" where
  "valid_date d = (MINORD \<le> d \<and> d \<le> MAXORD)"

text \<open>\<^verbatim>\<open>d + timedelta(days=n)\<close> and \<^verbatim>\<open>d - timedelta(days=n)\<close>.\<close>

definition date_plus :: "date \<Rightarrow> int \<Rightarrow> error + date" where
  "date_plus d n = (if valid_date (d + n) then Inr (d + n) else Inl OverflowError)"

definition date_minus :: "date \<Rightarrow> int \<Rightarrow> error + date" where
  "date_minus d n = (if valid_date (d - n) then Inr (d - n) else Inl OverflowError)"

text \<open>\<^verbatim>\<open>d.weekday()\<close>: Monday is 0, Sunday is 6; day 1 is a Monday.\<close>

definition weekday :: "date \<Rightarrow> int" where
  "weekday d = (d + 6) mod 7"

section \<open>Streak calculator\<close>

text \<open>
  The inner loop of the longest-streak pass (source lines 95-99):
  \<^verbatim>\<open>while (cur + timedelta(days=1)) in day_set: cur += timedelta(days=1); run += 1\<close>.
  It returns the final \<open>(cur, run)\<close>.
\<close>

function run_forward :: "date set \<Rightarrow> date \<Rightarrow> int \<Rightarrow> error + (date \<times> int)" where
  "run_forward day_set cur run =
     (case date_plus cur 1 of
        Inl e \<Rightarrow> Inl e
      | Inr nxt \<Rightarrow>
          if nxt \<in> day_set then run_forward day_set nxt (run + 1)
          else Inr (cur, run))"
  by pat_completeness auto
termination
  by (relation "measure (\<lambda>(day_set, cur, run). nat (MAXORD - cur))")
     (auto simp: date_plus_def valid_date_def split: if_splits)

text \<open>
  The outer loop (source lines 92-100): for every \<open>d\<close> of \<open>days\<close> whose previous day is
  not logged, measure the run that starts at \<open>d\<close> and keep the maximum.
\<close>

fun longest_loop :: "date set \<Rightarrow> date list \<Rightarrow> int \<Rightarrow> error + int" where
  "longest_loop day_set [] longest = Inr longest"
| "longest_loop day_set (d # ds) longest =
     (case date_minus d 1 of
        Inl e \<Rightarrow> Inl e
      | Inr prev \<Rightarrow>
          if prev \<notin> day_set then
            (case run_forward day_set d 1 of
               Inl e \<Rightarrow> Inl e
             | Inr (cur, run) \<Rightarrow> longest_loop day_set ds (max longest run))
          else longest_loop day_set ds longest)"

text \<open>
  The backward count of the current streak (source lines 112-116):
  \<^verbatim>\<open>while (cur - timedelta(days=1)) in day_set: cur -= timedelta(days=1); current += 1\<close>.
\<close>

function run_backward :: "date set \<Rightarrow> date \<Rightarrow> int \<Rightarrow> error + int" where
  "run_backward day_set cur current =
     (case date_minus cur 1 of
        Inl e \<Rightarrow> Inl e
      | Inr prev \<Rightarrow>
          if prev \<in> day_set then run_backward day_set prev (current + 1)
          else Inr current)"
  by pat_completeness auto
termination
  by (relation "measure (\<lambda>(day_set, cur, current). nat (cur - MINORD))")
     (auto simp: date_minus_def valid_date_def split: if_splits)

text \<open>
  \<^verbatim>\<open>compute_streaks(days)\<close> returns \<open>(current, longest)\<close>. The source reads the wall
  clock at line 103 (\<^verbatim>\<open>today = date.today()\<close>); the value it reads is the first
  argument of the model, the ambient date.
\<close>

definition compute_streaks :: "date \<Rightarrow> date list \<Rightarrow> error + (int \<times> int)" where
  "compute_streaks today days =
     (if days = [] then Inr (0, 0)
      else
        let day_set = set days in
        case longest_loop day_set days 1 of
          Inl e \<Rightarrow> Inl e
        | Inr longest \<Rightarrow>
            if today \<in> day_set then
              (case run_backward day_set today 1 of
                 Inl e \<Rightarrow> Inl e
               | Inr current \<Rightarrow> Inr (current, longest))
            else
              (case date_minus today 1 of
                 Inl e \<Rightarrow> Inl e
               | Inr yesterday \<Rightarrow>
                   if yesterday \<in> day_set then
                     (case run_backward day_set yesterday 1 of
                        Inl e \<Rightarrow> Inl e
                      | Inr current \<Rightarrow> Inr (current, longest))
                   else Inr (0, longest)))"

section \<open>Stage selector\<close>

text \<open>
  A Python \<^verbatim>\<open>str\<close> is the list of its code points. The palettes are the lists of source
  lines 130-134, with \<^verbatim>\<open>[x] * n\<close> written as \<open>replicate\<close> and \<^verbatim>\<open>[x, y, z] * n\<close> as the
  concatenation of \<open>n\<close> copies.
\<close>

type_synonym pystr = "nat list"

definition ascii :: "string \<Rightarrow> pystr" where
  "ascii s = map of_char s"

definition RAND_SEED :: int where
  "RAND_SEED = 19"

definition SEED_LIST :: "pystr list" where
  "SEED_LIST = [[0x1FAD8], [0x1F330]]"

definition SAPLING_LIST :: "pystr list" where
  "SAPLING_LIST =
     replicate 10 [0x1F331]
     @ concat (replicate 3 [[0x1F33F], [0x1F343], [0x2618, 0xFE0F]])
     @ [[0x1F340]]"

definition TREE_LIST :: "pystr list" where
  "TREE_LIST =
     concat (replicate 4 [[0x1F333], [0x1F332]])
     @ [[0x1F344], [0x1F344, 0x200D, 0x1F7EB]]"

definition BUG_LIST :: "pystr list" where
  "BUG_LIST =
     [[0x1F41B], [0x1F41E], [0x1F98B], [0x1F41D], [0x1F41C], [0x1F997], [0x1F40C],
      [0x1F577, 0xFE0F]]"

definition WOODLAND_ANIMAL_LIST :: "pystr list" where
  "WOODLAND_ANIMAL_LIST =
     [[0x1F43F, 0xFE0F], [0x1F9A1], [0x1F994], [0x1F98C], [0x1F42D], [0x1F98A], [0x1F43B],
      [0x1F43A], [0x1F989], [0x1F985]]"

text \<open>
  \<^verbatim>\<open>Random(seed).choice(seq)\<close> is \<^verbatim>\<open>seq[k]\<close>, where \<open>k\<close> is the first number below
  \<^verbatim>\<open>len(seq)\<close> that a generator freshly seeded with \<open>seed\<close> draws. The generator belongs to
  Python's library: its draw is the parameter \<open>draw seed n\<close> of the model. The library's
  draw is always below \<open>n\<close>; the palettes are never empty.
\<close>

definition choice :: "(int \<Rightarrow> nat \<Rightarrow> nat) \<Rightarrow> int \<Rightarrow> 'a list \<Rightarrow> 'a" where
  "choice draw seed seq = seq ! draw seed (length seq)"

text \<open>\<^verbatim>\<open>stage_for_count(n)\<close>, source lines 136-154.\<close>

definition stage_for_count :: "(int \<Rightarrow> nat \<Rightarrow> nat) \<Rightarrow> int \<Rightarrow> pystr" where
  "stage_for_count draw n =
     (if n \<le> 0 then ascii ''.''
      else if n = 1 then choice draw RAND_SEED SEED_LIST
      else if n = 2 then choice draw RAND_SEED SAPLING_LIST
      else if n = 3 then choice draw RAND_SEED TREE_LIST
      else if n = 4 then choice draw RAND_SEED BUG_LIST
      else choice draw RAND_SEED WOODLAND_ANIMAL_LIST)"

section \<open>Forest rendering\<close>

text \<open>
  The table \<^verbatim>\<open>reading_log\<close> is the list of its rows; of a row the renderer reads only the
  column \<^verbatim>\<open>logged_on\<close>, an ISO date, modelled by the date it denotes. The query of source
  lines 171-174 groups the rows logged between \<open>start\<close> and \<open>end\<close> by day and counts them:
  one pair per distinct day.
\<close>

definition count_rows :: "date list \<Rightarrow> date \<Rightarrow> date \<Rightarrow> (date \<times> int) list" where
  "count_rows logged start end =
     map (\<lambda>d. (d, int (count_list logged d)))
       (remdups (filter (\<lambda>d. start \<le> d \<and> d \<le> end) logged))"

text \<open>\<^verbatim>\<open>[start + timedelta(days=i) for i in is]\<close>.\<close>

fun date_range :: "date \<Rightarrow> int list \<Rightarrow> error + date list" where
  "date_range start [] = Inr []"
| "date_range start (i # is) =
     (case date_plus start i of
        Inl e \<Rightarrow> Inl e
      | Inr d \<Rightarrow>
          (case date_range start is of
             Inl e \<Rightarrow> Inl e
           | Inr ds \<Rightarrow> Inr (d # ds)))"

text \<open>
  A \<^verbatim>\<open>dict\<close> is an association list in insertion order: \<open>map_of\<close> looks a key up and
  \<open>AList.update\<close> assigns, in place for a key that is present and at the end for a new one.
  Source lines 170-178 build the dictionary of the window, every day at 0, and store the
  counts of the query.
\<close>

definition build_counts :: "date list \<Rightarrow> date \<Rightarrow> date \<Rightarrow> error + (date \<times> int) list" where
  "build_counts logged start end =
     (case date_range start [0..end - start] of
        Inl e \<Rightarrow> Inl e
      | Inr keys \<Rightarrow>
          Inr (foldl (\<lambda>counts (d, c). AList.update d c counts)
                 (map (\<lambda>d. (d, 0)) keys) (count_rows logged start end)))"

text \<open>
  The backward walk of source lines 184-186:
  \<^verbatim>\<open>while (cur - timedelta(days=1)) in counts and counts[cur - timedelta(days=1)] > 0\<close>.
\<close>

function walk_back :: "(date \<times> int) list \<Rightarrow> date \<Rightarrow> int \<Rightarrow> error + int" where
  "walk_back counts cur day_streak =
     (case date_minus cur 1 of
        Inl e \<Rightarrow> Inl e
      | Inr prev \<Rightarrow>
          (case map_of counts prev of
             None \<Rightarrow> Inr day_streak
           | Some c \<Rightarrow>
               if c > 0 then walk_back counts prev (day_streak + 1)
               else Inr day_streak))"
  by pat_completeness auto
termination
  by (relation "measure (\<lambda>(counts, cur, day_streak). nat (cur - MINORD))")
     (auto simp: date_minus_def valid_date_def split: if_splits)

text \<open>
  The streak pass of source lines 181-187 over the keys \<open>ds\<close>: it reads and overwrites the
  same dictionary.
\<close>

fun streak_loop :: "(date \<times> int) list \<Rightarrow> date list \<Rightarrow> error + (date \<times> int) list" where
  "streak_loop counts [] = Inr counts"
| "streak_loop counts (d # ds) =
     (case walk_back counts d 0 of
        Inl e \<Rightarrow> Inl e
      | Inr day_streak \<Rightarrow>
          (case map_of counts d of
             None \<Rightarrow> Inl KeyError
           | Some c \<Rightarrow>
               streak_loop
                 (AList.update d (if c > 0 then day_streak + 1 else 0) counts) ds))"

definition day_streaks :: "(date \<times> int) list \<Rightarrow> error + (date \<times> int) list" where
  "day_streaks counts = streak_loop counts (map fst counts)"

text \<open>
  \<^verbatim>\<open>xs[i]\<close> for a list of length \<open>n\<close>: a negative index counts from the end, and an index
  out of range raises \<^verbatim>\<open>IndexError\<close>.
\<close>

definition py_index :: "nat \<Rightarrow> int \<Rightarrow> error + nat" where
  "py_index n i =
     (let j = (if i < 0 then i + int n else i)
      in if 0 \<le> j \<and> j < int n then Inr (nat j) else Inl IndexError)"

text \<open>\<^verbatim>\<open>grid[row][col] = v\<close>; the rows of the grid are seven separate lists.\<close>

definition grid_set :: "pystr list list \<Rightarrow> int \<Rightarrow> int \<Rightarrow> pystr \<Rightarrow> error + pystr list list" where
  "grid_set grid row col v =
     (case py_index (length grid) row of
        Inl e \<Rightarrow> Inl e
      | Inr r \<Rightarrow>
          (case py_index (length (grid ! r)) col of
             Inl e \<Rightarrow> Inl e
           | Inr c \<Rightarrow> Inr (grid[r := (grid ! r)[c := v]])))"

text \<open>The loop of source lines 197-204 over the day offsets \<open>is\<close>.\<close>

fun grid_loop ::
  "(int \<Rightarrow> nat \<Rightarrow> nat) \<Rightarrow> (date \<times> int) list \<Rightarrow> date \<Rightarrow> date \<Rightarrow> date \<Rightarrow>
   pystr list list \<Rightarrow> int list \<Rightarrow> error + pystr list list" where
  "grid_loop draw counts start end start_aligned grid [] = Inr grid"
| "grid_loop draw counts start end start_aligned grid (i # is) =
     (case date_plus start_aligned i of
        Inl e \<Rightarrow> Inl e
      | Inr d \<Rightarrow>
          let col = i div 7;
              row = weekday d;
              cell = (if d < start \<or> d > end then ascii '' ''
                      else stage_for_count draw
                             (case map_of counts d of None \<Rightarrow> 0 | Some v \<Rightarrow> v))
          in case grid_set grid row col cell of
               Inl e \<Rightarrow> Inl e
             | Inr grid' \<Rightarrow> grid_loop draw counts start end start_aligned grid' is)"

text \<open>Source lines 189-204: the aligned Monday, the number of columns, the grid.\<close>

definition build_grid ::
  "(int \<Rightarrow> nat \<Rightarrow> nat) \<Rightarrow> (date \<times> int) list \<Rightarrow> date \<Rightarrow> date \<Rightarrow> error + pystr list list" where
  "build_grid draw counts start end =
     (case date_minus start ((weekday start - 0) mod 7) of
        Inl e \<Rightarrow> Inl e
      | Inr start_aligned \<Rightarrow>
          let days_total = (end - start_aligned) + 1;
              cols = (days_total + 6) div 7;
              grid = replicate 7 (replicate (nat cols) (ascii '' ''))
          in grid_loop draw counts start end start_aligned grid [0..days_total - 1])"

text \<open>
  The grid of \<^verbatim>\<open>render_forest(conn, weeks)\<close>, source lines 167-204. The source reads the
  wall clock at line 167 (\<^verbatim>\<open>end = date.today()\<close>); the value it reads is the argument
  \<open>today\<close> of the model, and \<open>logged\<close> is the table behind \<^verbatim>\<open>conn\<close>.
\<close>

definition forest_grid ::
  "(int \<Rightarrow> nat \<Rightarrow> nat) \<Rightarrow> date \<Rightarrow> date list \<Rightarrow> int \<Rightarrow> error + pystr list list" where
  "forest_grid draw today logged weeks =
     (let end = today in
      case date_minus end (weeks * 7 - 1) of
        Inl e \<Rightarrow> Inl e
      | Inr start \<Rightarrow>
          (case build_counts logged start end of
             Inl e \<Rightarrow> Inl e
           | Inr counts \<Rightarrow>
               (case day_streaks counts of
                  Inl e \<Rightarrow> Inl e
                | Inr streaks \<Rightarrow> build_grid draw streaks start end)))"

text \<open>\<^verbatim>\<open>str(n)\<close> for an integer, and \<^verbatim>\<open>sep.join(lines)\<close>.\<close>

fun digits :: "nat \<Rightarrow> pystr" where
  "digits n = (if n < 10 then [48 + n] else digits (n div 10) @ [48 + n mod 10])"

definition str_int :: "int \<Rightarrow> pystr" where
  "str_int i = (if i < 0 then 45 # digits (nat (- i)) else digits (nat i))"

fun join :: "pystr \<Rightarrow> pystr list \<Rightarrow> pystr" where
  "join sep [] = []"
| "join sep [x] = x"
| "join sep (x # y # ys) = x @ sep @ join sep (y # ys)"

text \<open>
  Source lines 206-211: the header and one labelled line per weekday. The dash of the
  header is U+2014 and its arrow U+2192.
\<close>

definition weekday_labels :: "pystr list" where
  "weekday_labels =
     [ascii ''Mon'', ascii ''Tue'', ascii ''Wed'', ascii ''Thu'', ascii ''Fri'',
      ascii ''Sat'', ascii ''Sun'']"

definition forest_text :: "int \<Rightarrow> pystr list list \<Rightarrow> pystr" where
  "forest_text weeks grid =
     join (ascii [CHR 0x0A])
       ((ascii ''PaperForest '' @ [0x2014] @ ascii '' last '' @ str_int weeks
           @ ascii '' weeks (Mon'' @ [0x2192] @ ascii ''Sun)'')
        # map (\<lambda>r. weekday_labels ! r @ ascii ''  '' @ concat (grid ! r)) [0..<7])"

definition render_forest ::
  "(int \<Rightarrow> nat \<Rightarrow> nat) \<Rightarrow> date \<Rightarrow> date list \<Rightarrow> int \<Rightarrow> error + pystr" where
  "render_forest draw today logged weeks =
     (case forest_grid draw today logged weeks of
        Inl e \<Rightarrow> Inl e
      | Inr grid \<Rightarrow> Inr (forest_text weeks grid))"

section \<open>Specification vocabulary for streaks\<close>

text \<open>
  A date is interior when the day before and the day after are dates too, so that the
  one-day steps of the streak loops cannot raise \<^verbatim>\<open>OverflowError\<close>: every date from
  0001-01-02 to 9999-12-30.
\<close>

definition interior :: "date \<Rightarrow> bool" where
  "interior d = (MINORD < d \<and> d < MAXORD)"

definition run_from :: "date set \<Rightarrow> date \<Rightarrow> int \<Rightarrow> bool" where
  "run_from S d n = (1 \<le> n \<and> (\<forall>i\<in>{0..<n}. d + i \<in> S) \<and> d + n \<notin> S)"

definition run_back :: "date set \<Rightarrow> date \<Rightarrow> int \<Rightarrow> bool" where
  "run_back S a n = (1 \<le> n \<and> (\<forall>i\<in>{0..<n}. a - i \<in> S) \<and> a - n \<notin> S)"

definition run_start :: "date set \<Rightarrow> date \<Rightarrow> bool" where
  "run_start S d = (d \<in> S \<and> d - 1 \<notin> S)"

definition run_lengths :: "date set \<Rightarrow> int set" where
  "run_lengths S = {n. \<exists>d. run_start S d \<and> run_from S d n}"

definition current_spec :: "date set \<Rightarrow> date \<Rightarrow> int \<Rightarrow> bool" where
  "current_spec S today current =
     (if today \<in> S then run_back S today current
      else if today - 1 \<in> S then run_back S (today - 1) current
      else current = 0)"

section \<open>Specification vocabulary for the renderer\<close>

text \<open>
  A day is active in a dictionary when it is a key with a positive count. The days
  \<open>d - 1, ..., d - k\<close> are the \<open>k\<close> consecutive active days immediately before \<open>d\<close> when
  they are all active and \<open>d - (k + 1)\<close> is not. The local streak of \<open>d\<close> is 0 when the
  count of \<open>d\<close> is 0 and \<open>1 + k\<close> otherwise.
\<close>

definition active :: "(date \<rightharpoonup> int) \<Rightarrow> date \<Rightarrow> bool" where
  "active m d = (case m d of None \<Rightarrow> False | Some c \<Rightarrow> 0 < c)"

definition active_before :: "(date \<rightharpoonup> int) \<Rightarrow> date \<Rightarrow> int \<Rightarrow> bool" where
  "active_before m d k = (0 \<le> k \<and> (\<forall>i\<in>{1..k}. active m (d - i)) \<and> \<not> active m (d - (k + 1)))"

definition local_streak :: "(date \<rightharpoonup> int) \<Rightarrow> date \<Rightarrow> int \<Rightarrow> bool" where
  "local_streak m d s = (if m d = Some 0 then s = 0 else active_before m d (s - 1))"

text \<open>
  The streak pass computed from an unmodified copy \<open>orig\<close> of the dictionary: the walk
  and the count of the day are read from \<open>orig\<close>, the result is stored in \<open>counts\<close>.
\<close>

fun streak_loop_copy ::
  "(date \<times> int) list \<Rightarrow> (date \<times> int) list \<Rightarrow> date list \<Rightarrow> error + (date \<times> int) list" where
  "streak_loop_copy orig counts [] = Inr counts"
| "streak_loop_copy orig counts (d # ds) =
     (case walk_back orig d 0 of
        Inl e \<Rightarrow> Inl e
      | Inr day_streak \<Rightarrow>
          (case map_of orig d of
             None \<Rightarrow> Inl KeyError
           | Some c \<Rightarrow>
               streak_loop_copy orig
                 (AList.update d (if c > 0 then day_streak + 1 else 0) counts) ds))"

definition day_streaks_copy :: "(date \<times> int) list \<Rightarrow> error + (date \<times> int) list" where
  "day_streaks_copy counts = streak_loop_copy counts counts (map fst counts)"

text \<open>
  Two dictionaries have the same activity when they have the same keys and the same
  active days; the keys of a dictionary are inner when the day before each is a date.
  A dictionary is dense over \<open>[start, end]\<close> when its keys are the days of the range in
  order and no count is negative.
\<close>

definition same_activity :: "(date \<times> int) list \<Rightarrow> (date \<times> int) list \<Rightarrow> bool" where
  "same_activity orig counts =
     ((\<forall>k. active (map_of counts) k = active (map_of orig) k)
      \<and> (\<forall>k. (map_of counts k = None) = (map_of orig k = None)))"

definition keys_inner :: "(date \<times> int) list \<Rightarrow> bool" where
  "keys_inner cs = (\<forall>k\<in>fst ` set cs. MINORD < k \<and> k \<le> MAXORD)"

text \<open>
  The value that source line 187 stores for day \<open>d\<close>: one more than the length of the
  walk when the count of \<open>d\<close> is positive, and 0 otherwise.
\<close>

definition stored_streak :: "(date \<rightharpoonup> int) \<Rightarrow> date \<Rightarrow> int \<Rightarrow> bool" where
  "stored_streak m d s = (if active m d then active_before m d (s - 1) else s = 0)"

definition dense_counts :: "(date \<times> int) list \<Rightarrow> date \<Rightarrow> date \<Rightarrow> bool" where
  "dense_counts counts start end =
     (map fst counts = [start..end] \<and> (\<forall>c\<in>snd ` set counts. 0 \<le> c))"

text \<open>
  The cell that source lines 201-204 write for day \<open>d\<close>, and the shape of a grid of seven
  rows of \<open>C\<close> cells.
\<close>

definition cell_of ::
  "(int \<Rightarrow> nat \<Rightarrow> nat) \<Rightarrow> (date \<times> int) list \<Rightarrow> date \<Rightarrow> date \<Rightarrow> date \<Rightarrow> pystr" where
  "cell_of draw streaks start end d =
     (if d < start \<or> d > end then ascii '' ''
      else stage_for_count draw (case map_of streaks d of None \<Rightarrow> 0 | Some v \<Rightarrow> v))"

definition grid_shape :: "pystr list list \<Rightarrow> nat \<Rightarrow> bool" where
  "grid_shape g C = (length g = 7 \<and> (\<forall>r<7. length (g ! r) = C))"

text \<open>
  The dense count dictionary of a window: every day from \<open>start\<close> to \<open>end\<close>, in order,
  with the number of rows logged on it. A Monday \<open>m\<close> is the Monday on or before \<open>start\<close>
  when \<open>start\<close> falls in the week that begins at \<open>m\<close>. The number of columns is that of
  source line 193.
\<close>

definition window_counts :: "date list \<Rightarrow> date \<Rightarrow> date \<Rightarrow> (date \<times> int) list" where
  "window_counts logged start end = map (\<lambda>d. (d, int (count_list logged d))) [start..end]"

definition monday_on_or_before :: "date \<Rightarrow> date \<Rightarrow> bool" where
  "monday_on_or_before start m = (weekday m = 0 \<and> m \<le> start \<and> start < m + 7)"

definition grid_columns :: "date \<Rightarrow> date \<Rightarrow> nat" where
  "grid_columns start end = nat ((end - (start - weekday start) + 1 + 6) div 7)"

text \<open>
  A sample generator for concrete runs: its first draw is always 0, so \<open>choice\<close> returns
  the first symbol of a palette.
\<close>

definition first_draw :: "int \<Rightarrow> nat \<Rightarrow> nat" where
  "first_draw seed n = 0"

text \<open>The palette of the tier of a positive streak length.\<close>

definition tier_palette :: "int \<Rightarrow> pystr list" where
  "tier_palette n =
     (if n = 1 then SEED_LIST else if n = 2 then SAPLING_LIST else if n = 3 then TREE_LIST
      else if n = 4 then BUG_LIST else WOODLAND_ANIMAL_LIST)"


text \<open>
  The tier of a streak length: 0 for the empty glyph, 1 to 4 for seed, sapling, tree and
  insect, 5 for every length from 5 on.
\<close>

definition tier :: "int \<Rightarrow> nat" where
  "tier n = (if n \<le> 0 then 0 else if 5 \<le> n then 5 else nat n)"

section \<open>The streak loops\<close>

lemma run_forward_ok:
  assumes "\<forall>x\<in>S. interior x" and "cur \<in> S"
  shows "\<exists>c. run_forward S cur run = Inr (c, run + (c - cur)) \<and> cur \<le> c
           \<and> (\<forall>j. cur \<le> j \<and> j \<le> c \<longrightarrow> j \<in> S) \<and> c + 1 \<notin> S"
  using assms
proof (induction S cur run rule: run_forward.induct)
  case (1 S cur run)
  from 1 have int: "interior cur" by blast
  then have dp: "date_plus cur 1 = Inr (cur + 1)"
    by (simp add: date_plus_def valid_date_def interior_def)
  show ?case
  proof (cases "cur + 1 \<in> S")
    case True
    from 1(1)[OF dp True] 1(2) True
    obtain c where c: "run_forward S (cur + 1) (run + 1) = Inr (c, run + 1 + (c - (cur + 1)))"
      "cur + 1 \<le> c" "\<forall>j. cur + 1 \<le> j \<and> j \<le> c \<longrightarrow> j \<in> S" "c + 1 \<notin> S"
      by blast
    have "\<forall>j. cur \<le> j \<and> j \<le> c \<longrightarrow> j \<in> S"
    proof (intro allI impI)
      fix j assume "cur \<le> j \<and> j \<le> c"
      then have "j = cur \<or> (cur + 1 \<le> j \<and> j \<le> c)" by arith
      then show "j \<in> S" using 1(3) c(3) by blast
    qed
    with c True dp show ?thesis
      by (subst run_forward.simps) (auto intro!: exI[of _ c])
  next
    case False
    with dp 1(3) show ?thesis
      by (subst run_forward.simps) (auto intro!: exI[of _ cur])
  qed
qed

lemma run_backward_ok:
  assumes "\<forall>x\<in>S. interior x" and "cur \<in> S"
  shows "\<exists>c. run_backward S cur n = Inr (n + (cur - c)) \<and> c \<le> cur
           \<and> (\<forall>j. c \<le> j \<and> j \<le> cur \<longrightarrow> j \<in> S) \<and> c - 1 \<notin> S"
  using assms
proof (induction S cur n rule: run_backward.induct)
  case (1 S cur n)
  from 1 have int: "interior cur" by blast
  then have dp: "date_minus cur 1 = Inr (cur - 1)"
    by (simp add: date_minus_def valid_date_def interior_def)
  show ?case
  proof (cases "cur - 1 \<in> S")
    case True
    from 1(1)[OF dp True] 1(2) True
    obtain c where c: "run_backward S (cur - 1) (n + 1) = Inr (n + 1 + (cur - 1 - c))"
      "c \<le> cur - 1" "\<forall>j. c \<le> j \<and> j \<le> cur - 1 \<longrightarrow> j \<in> S" "c - 1 \<notin> S"
      by blast
    have "\<forall>j. c \<le> j \<and> j \<le> cur \<longrightarrow> j \<in> S"
    proof (intro allI impI)
      fix j assume "c \<le> j \<and> j \<le> cur"
      then have "j = cur \<or> (c \<le> j \<and> j \<le> cur - 1)" by arith
      then show "j \<in> S" using 1(3) c(3) by blast
    qed
    with c True dp show ?thesis
      by (subst run_backward.simps) (auto intro!: exI[of _ c])
  next
    case False
    with dp 1(3) show ?thesis
      by (subst run_backward.simps) (auto intro!: exI[of _ cur])
  qed
qed

lemma run_from_unique: "run_from S d n \<Longrightarrow> run_from S d m \<Longrightarrow> n = m"
proof (rule ccontr)
  assume a: "run_from S d n" "run_from S d m" "n \<noteq> m"
  then consider "n < m" | "m < n" by arith
  then show False
  proof cases
    case 1
    with a have "d + n \<in> S" unfolding run_from_def by auto
    with a show False unfolding run_from_def by auto
  next
    case 2
    with a have "d + m \<in> S" unfolding run_from_def by auto
    with a show False unfolding run_from_def by auto
  qed
qed

lemma run_forward_run_from:
  assumes "\<forall>x\<in>S. interior x" and "d \<in> S"
  shows "\<exists>c n. run_forward S d 1 = Inr (c, n) \<and> run_from S d n"
proof -
  from run_forward_ok[OF assms, of 1] obtain c where
    c: "run_forward S d 1 = Inr (c, 1 + (c - d))" "d \<le> c"
       "\<forall>j. d \<le> j \<and> j \<le> c \<longrightarrow> j \<in> S" "c + 1 \<notin> S" by blast
  have "run_from S d (1 + (c - d))"
    unfolding run_from_def using c by (auto simp: algebra_simps)
  with c show ?thesis by blast
qed

lemma run_backward_run_back:
  assumes "\<forall>x\<in>S. interior x" and "a \<in> S"
  shows "\<exists>n. run_backward S a 1 = Inr n \<and> run_back S a n"
proof -
  from run_backward_ok[OF assms, of 1] obtain c where
    c: "run_backward S a 1 = Inr (1 + (a - c))" "c \<le> a"
       "\<forall>j. c \<le> j \<and> j \<le> a \<longrightarrow> j \<in> S" "c - 1 \<notin> S" by blast
  have "run_back S a (1 + (a - c))"
    unfolding run_back_def using c by (auto simp: algebra_simps)
  with c show ?thesis by blast
qed

lemma longest_loop_ok:
  assumes "\<forall>x\<in>S. interior x" and "set ds \<subseteq> S"
  shows "\<exists>L. longest_loop S ds l = Inr L \<and> l \<le> L
           \<and> (\<forall>d n. d \<in> set ds \<and> run_start S d \<and> run_from S d n \<longrightarrow> n \<le> L)
           \<and> (L = l \<or> (\<exists>d\<in>set ds. run_start S d \<and> run_from S d L))"
  using assms(2)
proof (induction ds arbitrary: l)
  case Nil
  then show ?case by simp
next
  case (Cons d ds)
  then have dS: "d \<in> S" and sub: "set ds \<subseteq> S" by auto
  with assms(1) have "interior d" by blast
  then have dm: "date_minus d 1 = Inr (d - 1)"
    by (simp add: date_minus_def valid_date_def interior_def)
  show ?case
  proof (cases "d - 1 \<in> S")
    case True
    then have ns: "\<not> run_start S d" by (simp add: run_start_def)
    from Cons.IH[OF sub, of l] obtain L where L: "longest_loop S ds l = Inr L" "l \<le> L"
      "\<forall>d n. d \<in> set ds \<and> run_start S d \<and> run_from S d n \<longrightarrow> n \<le> L"
      "L = l \<or> (\<exists>d\<in>set ds. run_start S d \<and> run_from S d L)" by blast
    have "longest_loop S (d # ds) l = Inr L" using dm True L(1) by simp
    moreover have "\<forall>d' n. d' \<in> set (d # ds) \<and> run_start S d' \<and> run_from S d' n \<longrightarrow> n \<le> L"
      using L(3) ns by auto
    moreover have "L = l \<or> (\<exists>d'\<in>set (d # ds). run_start S d' \<and> run_from S d' L)"
      using L(4) by auto
    ultimately show ?thesis using L(2) by blast
  next
    case False
    then have st: "run_start S d" using dS by (simp add: run_start_def)
    from run_forward_run_from[OF assms(1) dS] obtain c n where
      cn: "run_forward S d 1 = Inr (c, n)" "run_from S d n" by blast
    from Cons.IH[OF sub, of "max l n"] obtain L where L: "longest_loop S ds (max l n) = Inr L"
      "max l n \<le> L"
      "\<forall>d n. d \<in> set ds \<and> run_start S d \<and> run_from S d n \<longrightarrow> n \<le> L"
      "L = max l n \<or> (\<exists>d\<in>set ds. run_start S d \<and> run_from S d L)" by blast
    have "longest_loop S (d # ds) l = Inr L" using dm False cn(1) L(1) by simp
    moreover have "\<forall>d' m. d' \<in> set (d # ds) \<and> run_start S d' \<and> run_from S d' m \<longrightarrow> m \<le> L"
    proof (intro allI impI)
      fix d' m assume a: "d' \<in> set (d # ds) \<and> run_start S d' \<and> run_from S d' m"
      show "m \<le> L"
      proof (cases "d' = d")
        case True
        with a cn(2) have "m = n" using run_from_unique by blast
        with L(2) show ?thesis by simp
      next
        case False
        with a L(3) show ?thesis by auto
      qed
    qed
    moreover have "L = l \<or> (\<exists>d'\<in>set (d # ds). run_start S d' \<and> run_from S d' L)"
    proof (cases "L = l")
      case True then show ?thesis by simp
    next
      case False
      show ?thesis
      proof (cases "L = max l n")
        case True
        with False have "L = n" by (simp add: max_def split: if_splits)
        with st cn(2) show ?thesis by auto
      next
        case False
        with L(4) show ?thesis by auto
      qed
    qed
    moreover have "l \<le> L" using L(2) by simp
    ultimately show ?thesis by blast
  qed
qed

lemma longest_is_Max:
  assumes int: "\<forall>x\<in>set days. interior x" and ne: "days \<noteq> []"
  shows "longest_loop (set days) days 1 = Inr (Max (run_lengths (set days)))"
proof -
  let ?S = "set days"
  from longest_loop_ok[OF int subset_refl, of 1] obtain L where
    L: "longest_loop ?S days 1 = Inr L" "1 \<le> L"
       "\<forall>d n. d \<in> ?S \<and> run_start ?S d \<and> run_from ?S d n \<longrightarrow> n \<le> L"
       "L = 1 \<or> (\<exists>d\<in>?S. run_start ?S d \<and> run_from ?S d L)" by blast
  have ub: "\<forall>n\<in>run_lengths ?S. n \<le> L"
    using L(3) by (auto simp: run_lengths_def run_start_def)
  have "run_lengths ?S \<subseteq> {1..L}"
    using ub by (auto simp: run_lengths_def run_from_def)
  then have fin: "finite (run_lengths ?S)" by (rule finite_subset) simp
  have mem: "L \<in> run_lengths ?S"
  proof (cases "\<exists>d\<in>?S. run_start ?S d \<and> run_from ?S d L")
    case True
    then show ?thesis by (auto simp: run_lengths_def)
  next
    case False
    with L(4) have L1: "L = 1" by blast
    from ne have "?S \<noteq> {}" by simp
    then have m: "Min ?S \<in> ?S" by simp
    have "Min ?S - 1 \<notin> ?S"
    proof
      assume "Min ?S - 1 \<in> ?S"
      then have "Min ?S \<le> Min ?S - 1" by (intro Min_le) auto
      then show False by simp
    qed
    with m have st: "run_start ?S (Min ?S)" by (simp add: run_start_def)
    from run_forward_run_from[OF int m] obtain c n where
      n: "run_from ?S (Min ?S) n" by blast
    with st L(3) m have "n \<le> L" by blast
    moreover from n have "1 \<le> n" by (simp add: run_from_def)
    ultimately have "n = L" using L1 by simp
    with st n show ?thesis by (auto simp: run_lengths_def)
  qed
  have "Max (run_lengths ?S) = L"
    using fin ub mem by (intro Max_eqI) auto
  with L(1) show ?thesis by simp
qed

lemma compute_streaks_nonempty:
  assumes int: "\<forall>x\<in>set days. interior x" and ne: "days \<noteq> []"
    and t: "MINORD < today" "today \<le> MAXORD"
  shows "\<exists>current. compute_streaks today days = Inr (current, Max (run_lengths (set days)))
           \<and> current_spec (set days) today current"
proof -
  let ?S = "set days"
  note lg = longest_is_Max[OF int ne]
  have dm: "date_minus today 1 = Inr (today - 1)"
    using t by (simp add: date_minus_def valid_date_def)
  show ?thesis
  proof (cases "today \<in> ?S")
    case True
    from run_backward_run_back[OF int True] obtain n where
      "run_backward ?S today 1 = Inr n" "run_back ?S today n" by blast
    with True lg ne show ?thesis
      by (auto simp: compute_streaks_def current_spec_def)
  next
    case False
    show ?thesis
    proof (cases "today - 1 \<in> ?S")
      case True
      from run_backward_run_back[OF int True] obtain n where
        "run_backward ?S (today - 1) 1 = Inr n" "run_back ?S (today - 1) n" by blast
      with True False lg ne dm show ?thesis
        by (auto simp: compute_streaks_def current_spec_def)
    next
      case F2: False
      with False lg ne dm show ?thesis
        by (auto simp: compute_streaks_def current_spec_def)
    qed
  qed
qed

section \<open>Claims about the streak calculator\<close>

text \<open>
  C1. For every list of logged days (interior dates) and every ambient date after
  0001-01-01, \<open>compute_streaks\<close> returns a pair \<open>(current, longest)\<close>. The current
  streak is anchored at today if today is logged, otherwise at yesterday if yesterday is
  logged, otherwise it is 0 and the pair is still returned. From the anchor \<open>a\<close> it
  counts 1 for the anchor plus one for each consecutive prior logged day: the days
  \<open>a - i\<close> for \<open>0 \<le> i < current\<close> are all logged and \<open>a - current\<close> is not.
\<close>

theorem compute_streaks_current:
  assumes "\<forall>d\<in>set days. interior d" and "MINORD < today" and "today \<le> MAXORD"
  shows "\<exists>current longest. compute_streaks today days = Inr (current, longest) \<and>
           (if today \<in> set days then run_back (set days) today current
            else if today - 1 \<in> set days then run_back (set days) (today - 1) current
            else current = 0)"
proof (cases "days = []")
  case True
  then show ?thesis by (simp add: compute_streaks_def)
next
  case False
  from compute_streaks_nonempty[OF assms(1) False assms(2,3)]
  show ?thesis unfolding current_spec_def by blast
qed

theorem compute_streaks_current_witness:
  "interior 738886 \<and> interior 738887 \<and> interior 738889 \<and> MINORD < 738889 \<and> 738889 \<le> MAXORD
   \<and> compute_streaks 738889 [738886, 738887, 738889] = Inr (1, 2)
   \<and> run_back (set [738886, 738887, 738889]) 738889 1"
proof -
  have h: "\<forall>d\<in>set [738886, 738887, 738889]. interior d"
    by (simp add: interior_def MINORD_def MAXORD_def)
  have t: "MINORD < 738889" "738889 \<le> MAXORD"
    by (simp_all add: MINORD_def MAXORD_def)
  have e: "compute_streaks 738889 [738886, 738887, 738889] = Inr (1, 2)"
    by (simp add: compute_streaks_def date_minus_def date_plus_def valid_date_def
        MINORD_def MAXORD_def)
  from compute_streaks_current[OF h t] e
  have "run_back (set [738886, 738887, 738889]) 738889 1" by simp
  with h t e show ?thesis by simp
qed

text \<open>
  C3. For the empty list \<open>compute_streaks\<close> returns \<open>(0, 0)\<close>. For every non-empty list
  of logged days (interior dates) the longest streak it returns is the maximum, over all
  run starts \<open>d\<close> (logged days whose previous day is not logged), of the length of the
  consecutive run beginning at \<open>d\<close>.
\<close>

theorem compute_streaks_longest:
  assumes "\<forall>d\<in>set days. interior d" and "MINORD < today" and "today \<le> MAXORD"
  shows "compute_streaks today [] = Inr (0, 0) \<and>
         (days \<noteq> [] \<longrightarrow>
            (\<exists>current. compute_streaks today days
               = Inr (current, Max (run_lengths (set days)))))"
proof (intro conjI impI)
  show "compute_streaks today [] = Inr (0, 0)" by (simp add: compute_streaks_def)
next
  assume "days \<noteq> []"
  from compute_streaks_nonempty[OF assms(1) this assms(2,3)]
  show "\<exists>current. compute_streaks today days = Inr (current, Max (run_lengths (set days)))"
    by blast
qed

theorem compute_streaks_longest_witness:
  "interior 738886 \<and> interior 738887 \<and> interior 738889 \<and> MINORD < 738889 \<and> 738889 \<le> MAXORD
   \<and> compute_streaks 738889 [738886, 738887, 738889] = Inr (1, 2)
   \<and> Max (run_lengths (set [738886, 738887, 738889])) = 2"
proof -
  have h: "\<forall>d\<in>set [738886, 738887, 738889]. interior d"
    by (simp add: interior_def MINORD_def MAXORD_def)
  have t: "MINORD < 738889" "738889 \<le> MAXORD"
    by (simp_all add: MINORD_def MAXORD_def)
  have e: "compute_streaks 738889 [738886, 738887, 738889] = Inr (1, 2)"
    by (simp add: compute_streaks_def date_minus_def date_plus_def valid_date_def
        MINORD_def MAXORD_def)
  from compute_streaks_longest[OF h t] e
  have "Max (run_lengths (set [738886, 738887, 738889])) = 2" by simp
  with h t e show ?thesis by simp
qed

section \<open>The streak pass of the renderer\<close>

lemma walk_back_ge: "walk_back cs cur n = Inr r \<Longrightarrow> n \<le> r"
proof (induction cs cur n rule: walk_back.induct)
  case (1 cs cur n)
  show ?case
  proof (cases "date_minus cur 1")
    case (Inl e)
    with "1.prems" show ?thesis by (simp add: walk_back.simps[of _ cur n])
  next
    case (Inr prev)
    show ?thesis
    proof (cases "map_of cs prev")
      case None
      with Inr "1.prems" show ?thesis by (simp add: walk_back.simps[of _ cur n])
    next
      case (Some c)
      show ?thesis
      proof (cases "0 < c")
        case True
        with Inr Some "1.prems" have "walk_back cs prev (n + 1) = Inr r"
          by (simp add: walk_back.simps[of _ cur n])
        from "1.IH"[OF Inr Some True this] show ?thesis by simp
      next
        case False
        with Inr Some "1.prems" show ?thesis by (simp add: walk_back.simps[of _ cur n])
      qed
    qed
  qed
qed

lemma walk_back_same_activity:
  "same_activity orig cs \<Longrightarrow> walk_back cs cur n = walk_back orig cur n"
proof (induction cs cur n rule: walk_back.induct)
  case (1 cs cur n)
  note sa = "1.prems"
  show ?case
  proof (cases "date_minus cur 1")
    case (Inl e)
    then show ?thesis by (simp add: walk_back.simps[of _ cur n])
  next
    case (Inr prev)
    from sa have a: "active (map_of cs) prev = active (map_of orig) prev"
      unfolding same_activity_def by (elim conjE allE[of _ prev])
    show ?thesis
    proof (cases "active (map_of cs) prev")
      case True
      then obtain c where c: "map_of cs prev = Some c" "0 < c"
        by (auto simp: active_def split: option.splits)
      from True a obtain c' where c': "map_of orig prev = Some c'" "0 < c'"
        by (auto simp: active_def split: option.splits)
      have step1: "walk_back cs cur n = walk_back cs prev (n + 1)"
        using Inr c by (simp add: walk_back.simps[of cs cur n])
      have step2: "walk_back orig cur n = walk_back orig prev (n + 1)"
        using Inr c' by (simp add: walk_back.simps[of orig cur n])
      from "1.IH"[OF Inr c(1) c(2) sa] step1 step2 show ?thesis by simp
    next
      case False
      have step1: "walk_back cs cur n = Inr n"
        using Inr False
        by (simp add: walk_back.simps[of cs cur n] active_def split: option.splits)
      from False a have "\<not> active (map_of orig) prev" by simp
      then have step2: "walk_back orig cur n = Inr n"
        using Inr
        by (simp add: walk_back.simps[of orig cur n] active_def split: option.splits)
      from step1 step2 show ?thesis by simp
    qed
  qed
qed

lemma same_activity_update:
  assumes sa: "same_activity orig cs" and c: "map_of orig d = Some c"
    and v: "(0 < v) = (0 < c)"
  shows "same_activity orig (AList.update d v cs)"
  unfolding same_activity_def
proof (intro conjI allI)
  fix k
  from sa have a: "active (map_of cs) k = active (map_of orig) k"
    unfolding same_activity_def by blast
  show "active (map_of (AList.update d v cs)) k = active (map_of orig) k"
  proof (cases "k = d")
    case True
    with c v show ?thesis by (simp add: update_conv' active_def)
  next
    case False
    with a show ?thesis by (simp add: update_conv' active_def)
  qed
next
  fix k
  from sa have a: "(map_of cs k = None) = (map_of orig k = None)"
    unfolding same_activity_def by blast
  show "(map_of (AList.update d v cs) k = None) = (map_of orig k = None)"
  proof (cases "k = d")
    case True
    with c show ?thesis by (simp add: update_conv')
  next
    case False
    with a show ?thesis by (simp add: update_conv')
  qed
qed

lemma streak_loop_eq_copy:
  "same_activity orig cs \<Longrightarrow> streak_loop cs ds = streak_loop_copy orig cs ds"
proof (induction ds arbitrary: cs)
  case Nil
  then show ?case by simp
next
  case (Cons d ds)
  note wb = walk_back_same_activity[OF Cons.prems, of d 0]
  show ?case
  proof (cases "walk_back orig d 0")
    case (Inl e)
    with wb show ?thesis by simp
  next
    case (Inr k)
    with wb have k0: "0 \<le> k" using walk_back_ge by blast
    show ?thesis
    proof (cases "map_of orig d")
      case None
      with Cons.prems have "map_of cs d = None" unfolding same_activity_def by blast
      with None Inr wb show ?thesis by simp
    next
      case (Some c)
      from Cons.prems have "(map_of cs d = None) = (map_of orig d = None)"
        unfolding same_activity_def by blast
      with Some obtain c' where c': "map_of cs d = Some c'" by auto
      from Cons.prems have "active (map_of cs) d = active (map_of orig) d"
        unfolding same_activity_def by blast
      with Some c' have pos: "(0 < c') = (0 < c)"
        by (simp add: active_def)
      let ?v = "if 0 < c then k + 1 else 0"
      have "(0 < ?v) = (0 < c)" using k0 by simp
      from same_activity_update[OF Cons.prems Some this]
      have "streak_loop (AList.update d ?v cs) ds = streak_loop_copy orig (AList.update d ?v cs) ds"
        by (rule Cons.IH)
      with Some c' pos Inr wb show ?thesis by simp
    qed
  qed
qed

lemma same_activity_refl: "same_activity cs cs"
  by (simp add: same_activity_def)

lemma day_streaks_eq_copy: "day_streaks cs = day_streaks_copy cs"
  unfolding day_streaks_def day_streaks_copy_def
  by (rule streak_loop_eq_copy[OF same_activity_refl])

lemma active_key: "active (map_of cs) k \<Longrightarrow> k \<in> fst ` set cs"
  by (auto simp: active_def split: option.splits dest: map_of_SomeD intro: rev_image_eqI)

lemma active_before_step:
  assumes "active m (d - 1)" and "active_before m (d - 1) k"
  shows "active_before m d (k + 1)"
  unfolding active_before_def
proof (intro conjI ballI)
  from assms(2) show "0 \<le> k + 1" by (simp add: active_before_def)
next
  fix i assume i: "i \<in> {1..k + 1}"
  show "active m (d - i)"
  proof (cases "i = 1")
    case True
    with assms(1) show ?thesis by simp
  next
    case False
    with i have "i - 1 \<in> {1..k}" by auto
    moreover from assms(2) have "\<forall>j\<in>{1..k}. active m (d - 1 - j)"
      by (simp add: active_before_def)
    ultimately have "active m (d - 1 - (i - 1))" by blast
    moreover have "d - 1 - (i - 1) = d - i" by simp
    ultimately show ?thesis by simp
  qed
next
  from assms(2) have "\<not> active m (d - 1 - (k + 1))" by (simp add: active_before_def)
  moreover have "d - 1 - (k + 1) = d - (k + 1 + 1)" by simp
  ultimately show "\<not> active m (d - (k + 1 + 1))" by simp
qed

lemma walk_back_ok:
  "keys_inner cs \<Longrightarrow> MINORD < cur \<Longrightarrow> cur \<le> MAXORD \<Longrightarrow>
   \<exists>k. walk_back cs cur n = Inr (n + k) \<and> active_before (map_of cs) cur k"
proof (induction cs cur n rule: walk_back.induct)
  case (1 cs cur n)
  from "1.prems" have dm: "date_minus cur 1 = Inr (cur - 1)"
    by (simp add: date_minus_def valid_date_def)
  show ?case
  proof (cases "active (map_of cs) (cur - 1)")
    case True
    then obtain c where c: "map_of cs (cur - 1) = Some c" "0 < c"
      by (auto simp: active_def split: option.splits)
    from active_key[OF True] "1.prems"(1) have kk: "MINORD < cur - 1" "cur - 1 \<le> MAXORD"
      by (auto simp: keys_inner_def)
    from "1.IH"[OF dm c(1) c(2) "1.prems"(1) kk] obtain k where
      k: "walk_back cs (cur - 1) (n + 1) = Inr (n + 1 + k)"
         "active_before (map_of cs) (cur - 1) k" by blast
    have "walk_back cs cur n = walk_back cs (cur - 1) (n + 1)"
      using dm c by (simp add: walk_back.simps[of cs cur n])
    with k(1) have "walk_back cs cur n = Inr (n + (k + 1))" by simp
    moreover from active_before_step[OF True k(2)]
    have "active_before (map_of cs) cur (k + 1)" .
    ultimately show ?thesis by blast
  next
    case False
    then have "walk_back cs cur n = Inr (n + 0)"
      using dm by (simp add: walk_back.simps[of cs cur n] active_def split: option.splits)
    moreover from False have "active_before (map_of cs) cur 0"
      by (simp add: active_before_def)
    ultimately show ?thesis by blast
  qed
qed

lemma streak_loop_copy_ok:
  "keys_inner orig \<Longrightarrow> set ds \<subseteq> fst ` set orig \<Longrightarrow>
   \<exists>res. streak_loop_copy orig cs ds = Inr res
     \<and> (\<forall>d\<in>set ds. \<exists>s. map_of res d = Some s \<and> stored_streak (map_of orig) d s)
     \<and> (\<forall>d. d \<notin> set ds \<longrightarrow> map_of res d = map_of cs d)"
proof (induction ds arbitrary: cs)
  case Nil
  then show ?case by simp
next
  case (Cons d ds)
  from Cons.prems have dk: "d \<in> fst ` set orig" and sub: "set ds \<subseteq> fst ` set orig" by auto
  with Cons.prems(1) have dr: "MINORD < d" "d \<le> MAXORD" by (auto simp: keys_inner_def)
  from walk_back_ok[OF Cons.prems(1) dr, of 0] obtain k where
    k: "walk_back orig d 0 = Inr k" "active_before (map_of orig) d k" by auto
  from dk obtain c where c: "map_of orig d = Some c"
    by (metis domD dom_map_of_conv_image_fst)
  let ?v = "if 0 < c then k + 1 else 0"
  have sv: "stored_streak (map_of orig) d ?v"
    using k(2) c by (simp add: stored_streak_def active_def)
  from Cons.IH[OF Cons.prems(1) sub, of "AList.update d ?v cs"] obtain res where
    res: "streak_loop_copy orig (AList.update d ?v cs) ds = Inr res"
         "\<forall>x\<in>set ds. \<exists>s. map_of res x = Some s \<and> stored_streak (map_of orig) x s"
         "\<forall>x. x \<notin> set ds \<longrightarrow> map_of res x = map_of (AList.update d ?v cs) x" by blast
  have r1: "streak_loop_copy orig cs (d # ds) = Inr res"
    using k(1) c res(1) by simp
  have r2: "\<forall>x\<in>set (d # ds). \<exists>s. map_of res x = Some s \<and> stored_streak (map_of orig) x s"
  proof
    fix x assume x: "x \<in> set (d # ds)"
    show "\<exists>s. map_of res x = Some s \<and> stored_streak (map_of orig) x s"
    proof (cases "x \<in> set ds")
      case True
      with res(2) show ?thesis by blast
    next
      case False
      with x have xd: "x = d" by simp
      from False res(3) have "map_of res x = map_of (AList.update d ?v cs) x" by blast
      with xd have "map_of res x = Some ?v" by (simp add: update_conv')
      with sv xd show ?thesis by blast
    qed
  qed
  have r3: "\<forall>x. x \<notin> set (d # ds) \<longrightarrow> map_of res x = map_of cs x"
  proof (intro allI impI)
    fix x assume "x \<notin> set (d # ds)"
    then have "x \<notin> set ds" "x \<noteq> d" by auto
    with res(3) show "map_of res x = map_of cs x" by (simp add: update_conv')
  qed
  from r1 r2 r3 show ?case by blast
qed

lemma day_streaks_ok:
  assumes "keys_inner cs"
  shows "\<exists>res. day_streaks cs = Inr res
     \<and> (\<forall>d\<in>fst ` set cs. \<exists>s. map_of res d = Some s \<and> stored_streak (map_of cs) d s)
     \<and> (\<forall>d. d \<notin> fst ` set cs \<longrightarrow> map_of res d = None)"
proof -
  from streak_loop_copy_ok[OF assms, of "map fst cs" cs] obtain res where
    res: "streak_loop_copy cs cs (map fst cs) = Inr res"
      "\<forall>d\<in>set (map fst cs). \<exists>s. map_of res d = Some s \<and> stored_streak (map_of cs) d s"
      "\<forall>d. d \<notin> set (map fst cs) \<longrightarrow> map_of res d = map_of cs d" by auto
  have "day_streaks cs = Inr res"
    using res(1) day_streaks_eq_copy[of cs] by (simp add: day_streaks_copy_def)
  moreover have "\<forall>d. d \<notin> fst ` set cs \<longrightarrow> map_of res d = None"
    using res(3) by (auto simp: map_of_eq_None_iff)
  ultimately show ?thesis using res(2) by auto
qed

lemma streak_loop_same_activity:
  "same_activity orig cs \<Longrightarrow> streak_loop cs ds = Inr res \<Longrightarrow> same_activity orig res"
proof (induction ds arbitrary: cs)
  case Nil
  then show ?case by simp
next
  case (Cons d ds)
  from Cons.prems(2) obtain k where k: "walk_back cs d 0 = Inr k"
    by (cases "walk_back cs d 0") auto
  from Cons.prems(2) k obtain c' where c': "map_of cs d = Some c'"
    by (cases "map_of cs d") auto
  let ?v = "if 0 < c' then k + 1 else 0"
  from Cons.prems(2) k c' have r: "streak_loop (AList.update d ?v cs) ds = Inr res" by simp
  from Cons.prems(1) have "(map_of cs d = None) = (map_of orig d = None)"
    unfolding same_activity_def by blast
  with c' obtain c where c: "map_of orig d = Some c" by auto
  from Cons.prems(1) have "active (map_of cs) d = active (map_of orig) d"
    unfolding same_activity_def by blast
  with c c' have pos: "(0 < c') = (0 < c)" by (simp add: active_def)
  from walk_back_ge[OF k] have "0 \<le> k" .
  with pos have "(0 < ?v) = (0 < c)" by simp
  from same_activity_update[OF Cons.prems(1) c this] r show ?case
    by (rule Cons.IH)
qed

text \<open>
  C2. For every dense count dictionary over a range \<open>[start, end]\<close> (every date of the
  range a key, in order, every count at least 0; the range after 0001-01-01) and every
  date \<open>d\<close> of the range, the streak pass stores for \<open>d\<close> the value 0 if the count of \<open>d\<close>
  is 0, and otherwise 1 plus the number \<open>k\<close> of consecutive days immediately before \<open>d\<close>
  that are keys with a positive count: the days \<open>d - 1, ..., d - k\<close> are active and
  \<open>d - (k + 1)\<close> is not. On the counts 1, 1, 0, 1 of 2024-01-01 to 2024-01-04 (days
  738886 to 738889) the stored streaks are 1, 2, 0, 1.
\<close>

theorem day_streaks_local:
  assumes "dense_counts counts start end" and "MINORD < start" and "end \<le> MAXORD"
    and "start \<le> d" and "d \<le> end"
  shows "(\<exists>res s. day_streaks counts = Inr res \<and> map_of res d = Some s
            \<and> local_streak (map_of counts) d s)
         \<and> day_streaks [(738886, 1), (738887, 1), (738888, 0), (738889, 1)]
             = Inr [(738886, 1), (738887, 2), (738888, 0), (738889, 1)]"
proof
  from assms(1) have keys: "fst ` set counts = {start..end}"
    unfolding dense_counts_def by (metis set_map set_upto)
  with assms(2,3) have ki: "keys_inner counts" by (auto simp: keys_inner_def)
  from keys assms(4,5) have dk: "d \<in> fst ` set counts" by simp
  from day_streaks_ok[OF ki] dk obtain res s where
    res: "day_streaks counts = Inr res" "map_of res d = Some s"
         "stored_streak (map_of counts) d s" by blast
  from dk obtain c where c: "map_of counts d = Some c"
    by (metis domD dom_map_of_conv_image_fst)
  then have "(d, c) \<in> set counts" by (rule map_of_SomeD)
  then have "c \<in> snd ` set counts" by (auto intro: rev_image_eqI)
  with assms(1) have c0: "0 \<le> c" unfolding dense_counts_def by blast
  have "local_streak (map_of counts) d s"
    using res(3) c c0 by (auto simp: local_streak_def stored_streak_def active_def)
  with res show "\<exists>res s. day_streaks counts = Inr res \<and> map_of res d = Some s
            \<and> local_streak (map_of counts) d s" by blast
next
  show "day_streaks [(738886, 1), (738887, 1), (738888, 0), (738889, 1)]
             = Inr [(738886, 1), (738887, 2), (738888, 0), (738889, 1)]"
    by (simp add: day_streaks_def walk_back.simps date_minus_def valid_date_def MINORD_def
        MAXORD_def)
qed

theorem day_streaks_local_witness:
  "dense_counts [(738886, 1), (738887, 1), (738888, 0), (738889, 1)] 738886 738889
   \<and> MINORD < 738886 \<and> 738889 \<le> MAXORD
   \<and> local_streak (map_of [(738886, 1), (738887, 1), (738888, 0), (738889, 1)]) 738887 2"
proof -
  let ?ex = "[(738886, 1), (738887, 1), (738888, 0), (738889, 1)] :: (date \<times> int) list"
  have h1: "dense_counts ?ex 738886 738889"
    by (simp add: dense_counts_def upto_rec1)
  have h2: "MINORD < 738886" "738889 \<le> MAXORD" by (simp_all add: MINORD_def MAXORD_def)
  have h3: "(738886::int) \<le> 738887" "(738887::int) \<le> 738889" by simp_all
  from day_streaks_local[OF h1 h2 h3]
  have "local_streak (map_of ?ex) 738887 2" by auto
  with h1 h2 show ?thesis by simp
qed

text \<open>
  C10. The streak pass overwrites the dictionary it reads, key by key in insertion order.
  Its result is the result of the pass that reads every count and walks back over an
  unmodified copy of the original dictionary; and after the pass has processed any
  sequence of keys, the value stored for a day is positive exactly when the original
  count of that day was positive.
\<close>

theorem day_streaks_in_place:
  "day_streaks counts = day_streaks_copy counts
   \<and> (\<forall>ds res. streak_loop counts ds = Inr res \<longrightarrow>
         (\<forall>d. active (map_of res) d = active (map_of counts) d))"
proof (intro conjI allI impI)
  show "day_streaks counts = day_streaks_copy counts" by (rule day_streaks_eq_copy)
next
  fix ds res d assume "streak_loop counts ds = Inr res"
  from streak_loop_same_activity[OF same_activity_refl this]
  show "active (map_of res) d = active (map_of counts) d"
    unfolding same_activity_def by blast
qed

theorem day_streaks_in_place_witness:
  "streak_loop [(738886, 1), (738887, 1), (738888, 0), (738889, 1)] [738886, 738887]
     = Inr [(738886, 1), (738887, 2), (738888, 0), (738889, 1)]
   \<and> active (map_of [(738886, 1), (738887, 2), (738888, 0), (738889, 1)]) 738887
   \<and> active (map_of [(738886, 1), (738887, 1), (738888, 0), (738889, 1)]) 738887
   \<and> day_streaks [(738886, 1), (738887, 1), (738888, 0), (738889, 1)]
       = day_streaks_copy [(738886, 1), (738887, 1), (738888, 0), (738889, 1)]"
proof -
  let ?ex = "[(738886, 1), (738887, 1), (738888, 0), (738889, 1)] :: (date \<times> int) list"
  let ?r = "[(738886, 1), (738887, 2), (738888, 0), (738889, 1)] :: (date \<times> int) list"
  have e: "streak_loop ?ex [738886, 738887] = Inr ?r"
    by (simp add: walk_back.simps date_minus_def valid_date_def MINORD_def MAXORD_def)
  have a: "active (map_of ?ex) 738887" by (simp add: active_def)
  from day_streaks_in_place[of ?ex] e
  have "active (map_of ?r) 738887 = active (map_of ?ex) 738887"
    and "day_streaks ?ex = day_streaks_copy ?ex" by blast+
  with e a show ?thesis by simp
qed

section \<open>The grid of the renderer\<close>

lemma date_range_shape:
  "date_range start js = Inr ds \<Longrightarrow> ds = map (\<lambda>i. start + i) js"
proof (induction js arbitrary: ds)
  case Nil
  then show ?case by simp
next
  case (Cons i js)
  from Cons.prems obtain d where d: "date_plus start i = Inr d"
    by (cases "date_plus start i") auto
  from Cons.prems d obtain ds' where ds': "date_range start js = Inr ds'"
    by (cases "date_range start js") auto
  from d have "d = start + i" by (auto simp: date_plus_def split: if_splits)
  with Cons.prems d ds' Cons.IH[OF ds'] show ?case by auto
qed

lemma date_range_ok:
  "\<forall>i\<in>set js. valid_date (start + i) \<Longrightarrow> date_range start js = Inr (map (\<lambda>i. start + i) js)"
  by (induction js) (auto simp: date_plus_def)

lemma map_add_upto: "map (\<lambda>i. start + i) [a..b] = [start + a..start + b]"
proof (induction a b rule: upto.induct)
  case (1 i j)
  show ?case
  proof (cases "i \<le> j")
    case True
    with 1 show ?thesis by (simp add: upto_rec1[of i j] upto_rec1[of "start + i" "start + j"] add.assoc)
  next
    case False
    then show ?thesis by simp
  qed
qed

lemma window_keys: "map (\<lambda>i. start + i) [0..end - start] = [start..end]"
  using map_add_upto[of start 0 "end - start"] by simp

lemma update_distinct_map:
  "distinct (map fst cs) \<Longrightarrow> d \<in> fst ` set cs \<Longrightarrow>
   AList.update d v cs = map (\<lambda>(k, w). (k, if k = d then v else w)) cs"
proof (induction cs)
  case Nil
  then show ?case by simp
next
  case (Cons p cs)
  obtain k w where p: "p = (k, w)" by (cases p)
  show ?case
  proof (cases "k = d")
    case True
    with Cons.prems p have "d \<notin> fst ` set cs" by auto
    then have "map (\<lambda>(k, w). (k, if k = d then v else w)) cs = cs"
      by (induction cs) auto
    with True p show ?thesis by simp
  next
    case False
    with Cons.prems p have "d \<in> fst ` set cs" "distinct (map fst cs)" by auto
    with Cons.IH False p show ?thesis by simp
  qed
qed

lemma fill_counts_map:
  "distinct (map fst cs) \<Longrightarrow> set ks \<subseteq> fst ` set cs \<Longrightarrow>
   foldl (\<lambda>counts (d, c). AList.update d c counts) cs (map (\<lambda>d. (d, f d)) ks)
     = map (\<lambda>(k, w). (k, if k \<in> set ks then f k else w)) cs"
proof (induction ks arbitrary: cs)
  case Nil
  then show ?case by simp
next
  case (Cons d ks)
  let ?cs1 = "AList.update d (f d) cs"
  from Cons.prems have dk: "d \<in> fst ` set cs" and sub: "set ks \<subseteq> fst ` set cs" by auto
  have u: "?cs1 = map (\<lambda>(k, w). (k, if k = d then f d else w)) cs"
    by (rule update_distinct_map[OF Cons.prems(1) dk])
  have keys: "map fst ?cs1 = map fst cs" by (simp add: u case_prod_unfold comp_def)
  then have d1: "distinct (map fst ?cs1)" using Cons.prems(1) by simp
  from keys have "fst ` set ?cs1 = fst ` set cs" by (metis set_map)
  with sub have s1: "set ks \<subseteq> fst ` set ?cs1" by simp
  have "foldl (\<lambda>counts (d, c). AList.update d c counts) cs (map (\<lambda>d. (d, f d)) (d # ks))
        = foldl (\<lambda>counts (d, c). AList.update d c counts) ?cs1 (map (\<lambda>d. (d, f d)) ks)"
    by simp
  also have "\<dots> = map (\<lambda>(k, w). (k, if k \<in> set ks then f k else w)) ?cs1"
    by (rule Cons.IH[OF d1 s1])
  also have "\<dots> = map (\<lambda>(k, w). (k, if k \<in> set (d # ks) then f k else w)) cs"
    unfolding u by (auto simp: case_prod_unfold)
  finally show ?case .
qed

lemma build_counts_shape:
  assumes "date_range start [0..end - start] = Inr keys"
  shows "build_counts logged start end
           = Inr (map (\<lambda>d. (d, int (count_list logged d))) [start..end])"
proof -
  from date_range_shape[OF assms] have keys: "keys = [start..end]"
    by (simp add: window_keys)
  let ?cs = "map (\<lambda>d. (d, 0::int)) [start..end]"
  let ?ks = "remdups (filter (\<lambda>d. start \<le> d \<and> d \<le> end) logged)"
  have mf: "map fst ?cs = [start..end]" by (simp add: comp_def)
  then have dist: "distinct (map fst ?cs)" by simp
  have "fst ` set ?cs = {start..end}" using mf by (metis set_map set_upto)
  then have sub: "set ?ks \<subseteq> fst ` set ?cs" by auto
  have "foldl (\<lambda>counts (d, c). AList.update d c counts) ?cs
          (map (\<lambda>d. (d, int (count_list logged d))) ?ks)
        = map (\<lambda>(k, w). (k, if k \<in> set ?ks then int (count_list logged k) else w)) ?cs"
    by (rule fill_counts_map[OF dist sub])
  also have "\<dots> = map (\<lambda>d. (d, int (count_list logged d))) [start..end]"
    by (auto simp: comp_def count_list_0_iff)
  finally show ?thesis
    using assms keys by (simp add: build_counts_def count_rows_def)
qed

lemma py_index_ok: "0 \<le> i \<Longrightarrow> i < int n \<Longrightarrow> py_index n i = Inr (nat i)"
  by (simp add: py_index_def)

lemma offset_split:
  fixes i :: int and r c :: nat
  assumes "0 \<le> i" and "r < 7"
  shows "(r = nat (i mod 7) \<and> c = nat (i div 7)) = (7 * int c + int r = i)"
proof
  assume "r = nat (i mod 7) \<and> c = nat (i div 7)"
  with assms have "int r = i mod 7" "int c = i div 7" by (simp_all add: pos_imp_zdiv_nonneg_iff)
  then show "7 * int c + int r = i" by simp
next
  assume e: "7 * int c + int r = i"
  from assms(2) have "(7 * int c + int r) mod 7 = int r" by simp
  moreover from assms(2) have "(7 * int c + int r) div 7 = int c" by simp
  ultimately show "r = nat (i mod 7) \<and> c = nat (i div 7)" using e by auto
qed

lemma grid_set_ok:
  assumes "grid_shape g C" and "0 \<le> row" and "row < 7" and "0 \<le> col" and "col < int C"
  shows "\<exists>g'. grid_set g row col v = Inr g' \<and> grid_shape g' C
           \<and> (\<forall>r<7. \<forall>c<C. g' ! r ! c = (if r = nat row \<and> c = nat col then v else g ! r ! c))"
proof -
  from assms have len: "length g = 7" and rows: "\<forall>r<7. length (g ! r) = C"
    by (simp_all add: grid_shape_def)
  from assms(2,3) have r7: "nat row < 7" by simp
  with rows have lr: "length (g ! nat row) = C" by blast
  let ?g' = "g[nat row := (g ! nat row)[nat col := v]]"
  have i1: "py_index (length g) row = Inr (nat row)"
    using assms(2,3) len by (simp add: py_index_ok)
  have i2: "py_index (length (g ! nat row)) col = Inr (nat col)"
    using assms(4,5) lr by (simp add: py_index_ok)
  have e: "grid_set g row col v = Inr ?g'"
    by (simp add: grid_set_def i1 i2)
  have nth: "?g' ! r = (if r = nat row then (g ! nat row)[nat col := v] else g ! r)"
    if "r < 7" for r using that len by (simp add: nth_list_update)
  have sh: "grid_shape ?g' C"
    unfolding grid_shape_def
  proof (intro conjI allI impI)
    show "length ?g' = 7" using len by simp
  next
    fix r :: nat assume r: "r < 7"
    show "length (?g' ! r) = C"
    proof (cases "r = nat row")
      case True
      with nth[OF r] lr show ?thesis by simp
    next
      case False
      with nth[OF r] rows r show ?thesis by simp
    qed
  qed
  have cells: "\<forall>r<7. \<forall>c<C. ?g' ! r ! c = (if r = nat row \<and> c = nat col then v else g ! r ! c)"
  proof (intro allI impI)
    fix r c :: nat assume r: "r < 7" and c: "c < C"
    show "?g' ! r ! c = (if r = nat row \<and> c = nat col then v else g ! r ! c)"
    proof (cases "r = nat row")
      case True
      with nth[OF r] lr c show ?thesis by (simp add: nth_list_update)
    next
      case False
      with nth[OF r] show ?thesis by simp
    qed
  qed
  from e sh cells show ?thesis by blast
qed

lemma weekday_offset: "weekday sa = 0 \<Longrightarrow> 0 \<le> i \<Longrightarrow> weekday (sa + i) = i mod 7"
  unfolding weekday_def by presburger

lemma grid_loop_ok:
  "grid_shape g C \<Longrightarrow> weekday sa = 0 \<Longrightarrow>
   \<forall>i\<in>set js. 0 \<le> i \<and> i < 7 * int C \<and> valid_date (sa + i) \<Longrightarrow>
   \<exists>g'. grid_loop draw streaks start end sa g js = Inr g' \<and> grid_shape g' C
     \<and> (\<forall>r<7. \<forall>c<C. g' ! r ! c =
           (if 7 * int c + int r \<in> set js
            then cell_of draw streaks start end (sa + (7 * int c + int r))
            else g ! r ! c))"
proof (induction js arbitrary: g)
  case Nil
  then show ?case by simp
next
  case (Cons i js)
  from Cons.prems(3) have i: "0 \<le> i" "i < 7 * int C" "valid_date (sa + i)"
    and rest: "\<forall>i\<in>set js. 0 \<le> i \<and> i < 7 * int C \<and> valid_date (sa + i)" by auto
  have dp: "date_plus sa i = Inr (sa + i)" using i(3) by (simp add: date_plus_def)
  have wd: "weekday (sa + i) = i mod 7" by (rule weekday_offset[OF Cons.prems(2) i(1)])
  have row: "0 \<le> i mod 7" "i mod 7 < 7" by simp_all
  have col: "0 \<le> i div 7" "i div 7 < int C" using i by auto
  let ?v = "cell_of draw streaks start end (sa + i)"
  from grid_set_ok[OF Cons.prems(1) row col, of ?v] obtain g1 where
    g1: "grid_set g (i mod 7) (i div 7) ?v = Inr g1" "grid_shape g1 C"
        "\<forall>r<7. \<forall>c<C. g1 ! r ! c = (if r = nat (i mod 7) \<and> c = nat (i div 7) then ?v else g ! r ! c)"
    by blast
  from Cons.IH[OF g1(2) Cons.prems(2) rest] obtain g' where
    g': "grid_loop draw streaks start end sa g1 js = Inr g'" "grid_shape g' C"
        "\<forall>r<7. \<forall>c<C. g' ! r ! c =
           (if 7 * int c + int r \<in> set js
            then cell_of draw streaks start end (sa + (7 * int c + int r))
            else g1 ! r ! c)" by blast
  have e: "grid_loop draw streaks start end sa g (i # js) = Inr g'"
    using dp wd g1(1) g'(1) by (simp add: cell_of_def Let_def)
  have cells: "\<forall>r<7. \<forall>c<C. g' ! r ! c =
           (if 7 * int c + int r \<in> set (i # js)
            then cell_of draw streaks start end (sa + (7 * int c + int r))
            else g ! r ! c)"
  proof (intro allI impI)
    fix r c :: nat assume r: "r < 7" and c: "c < C"
    note sp = offset_split[OF i(1) r, of c]
    show "g' ! r ! c =
           (if 7 * int c + int r \<in> set (i # js)
            then cell_of draw streaks start end (sa + (7 * int c + int r))
            else g ! r ! c)"
    proof (cases "7 * int c + int r \<in> set js")
      case True
      with g'(3) r c show ?thesis by simp
    next
      case False
      with g'(3) r c have "g' ! r ! c = g1 ! r ! c" by simp
      also from g1(3) r c have "\<dots> = (if r = nat (i mod 7) \<and> c = nat (i div 7) then ?v else g ! r ! c)"
        by simp
      finally show ?thesis using False sp by auto
    qed
  qed
  from e g'(2) cells show ?case by blast
qed

lemma weekday_range: "0 \<le> weekday d \<and> weekday d < 7"
  by (simp add: weekday_def)

lemma monday_aligned: "monday_on_or_before start (start - weekday start)"
  unfolding monday_on_or_before_def weekday_def by presburger

lemma monday_valid:
  assumes "valid_date start"
  shows "valid_date (start - weekday start)"
proof -
  from assms have "0 \<le> start - 1" by (simp add: valid_date_def MINORD_def)
  then have "(start - 1) mod 7 \<le> start - 1" by (rule zmod_le_nonneg_dividend)
  moreover have "weekday start = (start - 1) mod 7" unfolding weekday_def by presburger
  ultimately have "1 \<le> start - weekday start" by simp
  moreover have "start - weekday start \<le> start" using weekday_range[of start] by simp
  ultimately show ?thesis using assms by (simp add: valid_date_def MINORD_def)
qed

lemma build_grid_ok:
  assumes vs: "valid_date start" and ve: "valid_date end"
  shows "\<exists>g. build_grid draw streaks start end = Inr g
           \<and> grid_shape g (grid_columns start end)
           \<and> (\<forall>r<7. \<forall>c<grid_columns start end.
                 g ! r ! c = cell_of draw streaks start end
                               (start - weekday start + (7 * int c + int r)))"
proof -
  let ?sa = "start - weekday start"
  let ?total = "end - ?sa + 1"
  let ?C = "grid_columns start end"
  let ?g0 = "replicate 7 (replicate ?C (ascii '' ''))"
  have wm: "weekday start mod 7 = weekday start"
    using weekday_range[of start] by simp
  have dm: "date_minus start ((weekday start - 0) mod 7) = Inr ?sa"
    using monday_valid[OF vs] by (simp add: wm date_minus_def)
  have mon: "weekday ?sa = 0" using monday_aligned[of start] by (simp add: monday_on_or_before_def)
  have sh0: "grid_shape ?g0 ?C" by (auto simp: grid_shape_def)
  have C: "?C = nat ((?total + 6) div 7)" by (simp add: grid_columns_def)
  have js: "\<forall>i\<in>set [0..?total - 1]. 0 \<le> i \<and> i < 7 * int ?C \<and> valid_date (?sa + i)"
  proof
    fix i assume "i \<in> set [0..?total - 1]"
    then have i: "0 \<le> i" "i \<le> ?total - 1" by auto
    then have "1 \<le> ?total" by simp
    then have "0 \<le> (?total + 6) div 7" by simp
    then have "int ?C = (?total + 6) div 7" unfolding C by simp
    moreover have "?total \<le> 7 * ((?total + 6) div 7)" by presburger
    ultimately have "i < 7 * int ?C" using i(2) by simp
    moreover have "valid_date (?sa + i)"
      using monday_valid[OF vs] ve i by (simp add: valid_date_def)
    ultimately show "0 \<le> i \<and> i < 7 * int ?C \<and> valid_date (?sa + i)" using i(1) by simp
  qed
  from grid_loop_ok[OF sh0 mon js, of draw streaks start "end"] obtain g where
    g: "grid_loop draw streaks start end ?sa ?g0 [0..?total - 1] = Inr g" "grid_shape g ?C"
       "\<forall>r<7. \<forall>c<?C. g ! r ! c =
           (if 7 * int c + int r \<in> set [0..?total - 1]
            then cell_of draw streaks start end (?sa + (7 * int c + int r))
            else ?g0 ! r ! c)" by blast
  have e: "build_grid draw streaks start end = Inr g"
    using dm g(1) by (simp add: build_grid_def Let_def grid_columns_def)
  have cells: "\<forall>r<7. \<forall>c<?C. g ! r ! c = cell_of draw streaks start end (?sa + (7 * int c + int r))"
  proof (intro allI impI)
    fix r c :: nat assume r: "r < 7" and c: "c < ?C"
    show "g ! r ! c = cell_of draw streaks start end (?sa + (7 * int c + int r))"
    proof (cases "7 * int c + int r \<in> set [0..?total - 1]")
      case True
      with g(3) r c show ?thesis by simp
    next
      case False
      then have "end < ?sa + (7 * int c + int r)" by auto
      then have "cell_of draw streaks start end (?sa + (7 * int c + int r)) = ascii '' ''"
        by (simp add: cell_of_def)
      moreover from g(3) r c False have "g ! r ! c = ?g0 ! r ! c" by simp
      moreover have "?g0 ! r ! c = ascii '' ''" using r c by simp
      ultimately show ?thesis by simp
    qed
  qed
  from e g(2) cells show ?thesis by blast
qed

lemma window_dense: "dense_counts (window_counts logged start end) start end"
  by (auto simp: dense_counts_def window_counts_def comp_def)

lemma build_counts_ok:
  assumes "valid_date start" and "valid_date end \<or> end < start"
  shows "build_counts logged start end = Inr (window_counts logged start end)"
proof -
  have "\<forall>i\<in>set [0..end - start]. valid_date (start + i)"
    using assms by (auto simp: valid_date_def)
  from date_range_ok[OF this] build_counts_shape show ?thesis
    unfolding window_counts_def by blast
qed

lemma day_streaks_dense:
  assumes "dense_counts cs start end" and "MINORD < start" and "end \<le> MAXORD"
  shows "\<exists>res. day_streaks cs = Inr res
           \<and> (\<forall>d\<in>{start..end}. \<exists>s. map_of res d = Some s \<and> local_streak (map_of cs) d s)"
proof -
  from assms(1) have keys: "fst ` set cs = {start..end}"
    unfolding dense_counts_def by (metis set_map set_upto)
  with assms(2,3) have ki: "keys_inner cs" by (auto simp: keys_inner_def)
  from day_streaks_ok[OF ki] obtain res where
    res: "day_streaks cs = Inr res"
         "\<forall>d\<in>fst ` set cs. \<exists>s. map_of res d = Some s \<and> stored_streak (map_of cs) d s"
    by blast
  have "\<forall>d\<in>{start..end}. \<exists>s. map_of res d = Some s \<and> local_streak (map_of cs) d s"
  proof
    fix d assume d: "d \<in> {start..end}"
    with keys have dk: "d \<in> fst ` set cs" by simp
    with res(2) obtain s where s: "map_of res d = Some s" "stored_streak (map_of cs) d s"
      by blast
    from dk obtain c where c: "map_of cs d = Some c"
      by (metis domD dom_map_of_conv_image_fst)
    then have "(d, c) \<in> set cs" by (rule map_of_SomeD)
    then have "c \<in> snd ` set cs" by (auto intro: rev_image_eqI)
    with assms(1) have c0: "0 \<le> c" unfolding dense_counts_def by blast
    have "local_streak (map_of cs) d s"
      using s(2) c c0 by (auto simp: local_streak_def stored_streak_def active_def)
    with s(1) show "\<exists>s. map_of res d = Some s \<and> local_streak (map_of cs) d s" by blast
  qed
  with res(1) show ?thesis by blast
qed

lemma forest_grid_ok:
  assumes vt: "valid_date today" and st: "start = today - (weeks * 7 - 1)"
    and lo: "MINORD < start" and hi: "start \<le> MAXORD"
  shows "\<exists>g streaks. forest_grid draw today logged weeks = Inr g
           \<and> grid_shape g (grid_columns start today)
           \<and> (\<forall>r<7. \<forall>c<grid_columns start today.
                 g ! r ! c = cell_of draw streaks start today
                               (start - weekday start + (7 * int c + int r)))
           \<and> (\<forall>d\<in>{start..today}. \<exists>s. map_of streaks d = Some s
                 \<and> local_streak (map_of (window_counts logged start today)) d s)"
proof -
  have vs: "valid_date start" using lo hi by (simp add: valid_date_def)
  have dm: "date_minus today (weeks * 7 - 1) = Inr start"
    using vs st by (simp add: date_minus_def)
  have bc: "build_counts logged start today = Inr (window_counts logged start today)"
    using build_counts_ok[OF vs] vt by blast
  from vt have "today \<le> MAXORD" by (simp add: valid_date_def)
  from day_streaks_dense[OF window_dense lo this] obtain streaks where
    s: "day_streaks (window_counts logged start today) = Inr streaks"
       "\<forall>d\<in>{start..today}. \<exists>s. map_of streaks d = Some s
           \<and> local_streak (map_of (window_counts logged start today)) d s" by blast
  from build_grid_ok[OF vs vt, of draw streaks] obtain g where
    g: "build_grid draw streaks start today = Inr g"
       "grid_shape g (grid_columns start today)"
       "\<forall>r<7. \<forall>c<grid_columns start today.
           g ! r ! c = cell_of draw streaks start today
                         (start - weekday start + (7 * int c + int r))" by blast
  have "forest_grid draw today logged weeks = Inr g"
    using dm bc s(1) g(1) by (simp add: forest_grid_def)
  with g(2,3) s(2) show ?thesis by blast
qed

section \<open>Claims about the renderer and the stage selector\<close>

lemma replicate7: "replicate 7 x = [x, x, x, x, x, x, x]"
  by (simp add: numeral_eq_Suc)

lemma list_update_numeral: "(x # xs)[numeral v := y] = x # xs[numeral v - 1 := y]"
  by (simp add: numeral_eq_Suc)

lemma replicate2: "replicate 2 x = [x, x]"
  by (simp add: numeral_2_eq_2)

lemma columns_ceiling:
  assumes "1 \<le> (t::int)"
  shows "int (nat ((t + 6) div 7)) = \<lceil>real_of_int t / 7\<rceil>"
proof -
  have "\<lceil>real_of_int t / real_of_int 7\<rceil> = - (- t div 7)"
    by (rule ceiling_divide_eq_div)
  moreover have "- (- t div 7) = (t + 6) div 7" by presburger
  moreover from assms have "0 \<le> (t + 6) div 7" by simp
  ultimately show ?thesis by simp
qed

lemma grid_rows:
  assumes "grid_shape g C"
  shows "length g = 7 \<and> (\<forall>row\<in>set g. length row = C)"
proof
  from assms show len: "length g = 7" by (simp add: grid_shape_def)
  show "\<forall>row\<in>set g. length row = C"
  proof
    fix row assume "row \<in> set g"
    then obtain r where "r < length g" "g ! r = row" by (auto simp: in_set_conv_nth)
    with assms len show "length row = C" by (auto simp: grid_shape_def)
  qed
qed

lemma cell_of_day:
  assumes cells: "\<forall>r<7. \<forall>c<grid_columns start end.
                 g ! r ! c = cell_of draw streaks start end
                               (start - weekday start + (7 * int c + int r))"
    and d: "start - weekday start \<le> d" "d \<le> end"
  shows "g ! nat (weekday d) ! nat ((d - (start - weekday start)) div 7)
           = cell_of draw streaks start end d"
proof -
  let ?m = "start - weekday start"
  let ?i = "d - ?m"
  let ?t = "end - ?m + 1"
  from d have i: "0 \<le> ?i" "?i < ?t" by simp_all
  have mon: "weekday ?m = 0" using monday_aligned[of start] by (simp add: monday_on_or_before_def)
  have "weekday (?m + ?i) = ?i mod 7" by (rule weekday_offset[OF mon i(1)])
  then have wd: "weekday d = ?i mod 7" by simp
  have r: "nat (?i mod 7) < 7" by simp
  have lt: "?i div 7 < (?t + 6) div 7"
  proof -
    have "?i + 7 \<le> ?t + 6" using i(2) by simp
    then have "(?i + 7) div 7 \<le> (?t + 6) div 7" by (rule zdiv_mono1) simp
    then show ?thesis by simp
  qed
  have nn: "0 \<le> ?i div 7" using i(1) by (simp add: pos_imp_zdiv_nonneg_iff)
  from lt nn have c: "nat (?i div 7) < grid_columns start end"
    unfolding grid_columns_def by (simp add: nat_less_iff)
  from cells r c have "g ! nat (?i mod 7) ! nat (?i div 7)
      = cell_of draw streaks start end (?m + (7 * int (nat (?i div 7)) + int (nat (?i mod 7))))"
    by blast
  moreover have "7 * int (nat (?i div 7)) + int (nat (?i mod 7)) = ?i"
    using nn by simp
  ultimately show ?thesis using wd by simp
qed

lemma in_window_cell:
  assumes "\<forall>d\<in>{start..end}. \<exists>s. map_of streaks d = Some s \<and> local_streak m d s"
    and "start \<le> d" and "d \<le> end"
  shows "\<exists>s. local_streak m d s \<and> cell_of draw streaks start end d = stage_for_count draw s"
proof -
  from assms(2,3) have "d \<in> {start..end}" by simp
  with assms(1) have "\<exists>s. map_of streaks d = Some s \<and> local_streak m d s" by (rule bspec)
  then obtain s where s: "map_of streaks d = Some s" "local_streak m d s" by blast
  have "cell_of draw streaks start end d = stage_for_count draw s"
    using assms(2,3) s(1) by (simp add: cell_of_def)
  with s(2) show ?thesis by blast
qed

lemma out_window_cell:
  "d < start \<or> end < d \<Longrightarrow> cell_of draw streaks start end d = ascii '' ''"
  by (auto simp: cell_of_def)

text \<open>
  C6. For every \<open>weeks > 0\<close> and every reference date whose window starts after
  0001-01-01, the renderer returns a grid for the window \<open>end = today\<close>,
  \<open>start = end - (weeks * 7 - 1)\<close>. With \<open>m\<close> the Monday on or before \<open>start\<close>, the grid
  has exactly 7 rows, and every row has \<open>ceil((today - m + 1) / 7)\<close> columns. The cell of
  a day \<open>d\<close> from \<open>m\<close> to today is in row \<open>weekday d\<close> (Monday 0 to Sunday 6) and column
  \<open>(d - m) div 7\<close>: it is blank before \<open>start\<close>, and from \<open>start\<close> on it is the stage symbol
  of the local streak of \<open>d\<close> in the window.
\<close>

theorem forest_grid_shape:
  assumes "0 < weeks" and "valid_date today" and "MINORD < today - (weeks * 7 - 1)"
  shows "\<exists>g m. forest_grid draw today logged weeks = Inr g
           \<and> monday_on_or_before (today - (weeks * 7 - 1)) m
           \<and> length g = 7
           \<and> (\<forall>row\<in>set g. int (length row) = \<lceil>real_of_int (today - m + 1) / 7\<rceil>)
           \<and> (\<forall>d\<in>{m..today}.
                 if d < today - (weeks * 7 - 1)
                 then g ! nat (weekday d) ! nat ((d - m) div 7) = ascii '' ''
                 else \<exists>s. local_streak
                            (map_of (window_counts logged (today - (weeks * 7 - 1)) today)) d s
                        \<and> g ! nat (weekday d) ! nat ((d - m) div 7) = stage_for_count draw s)"
proof -
  let ?start = "today - (weeks * 7 - 1)"
  let ?m = "?start - weekday ?start"
  from assms(1) have le: "?start \<le> today" by simp
  with assms(2) have hi: "?start \<le> MAXORD" by (simp add: valid_date_def)
  from forest_grid_ok[OF assms(2) refl assms(3) hi, of draw logged] obtain g streaks where
    g: "forest_grid draw today logged weeks = Inr g"
       "grid_shape g (grid_columns ?start today)"
       "\<forall>r<7. \<forall>c<grid_columns ?start today.
           g ! r ! c = cell_of draw streaks ?start today (?m + (7 * int c + int r))"
       "\<forall>d\<in>{?start..today}. \<exists>s. map_of streaks d = Some s
           \<and> local_streak (map_of (window_counts logged ?start today)) d s" by blast
  have mon: "monday_on_or_before ?start ?m" by (rule monday_aligned)
  then have "?m \<le> ?start" by (simp add: monday_on_or_before_def)
  with le have t1: "1 \<le> today - ?m + 1" by simp
  from grid_rows[OF g(2)] have len: "length g = 7"
    and rows: "\<forall>row\<in>set g. length row = grid_columns ?start today" by simp_all
  have "int (grid_columns ?start today) = \<lceil>real_of_int (today - ?m + 1) / 7\<rceil>"
    unfolding grid_columns_def by (rule columns_ceiling[OF t1])
  with rows have cols: "\<forall>row\<in>set g. int (length row) = \<lceil>real_of_int (today - ?m + 1) / 7\<rceil>"
    by simp
  have days: "\<forall>d\<in>{?m..today}.
                 if d < ?start
                 then g ! nat (weekday d) ! nat ((d - ?m) div 7) = ascii '' ''
                 else \<exists>s. local_streak (map_of (window_counts logged ?start today)) d s
                        \<and> g ! nat (weekday d) ! nat ((d - ?m) div 7) = stage_for_count draw s"
  proof
    fix d assume "d \<in> {?m..today}"
    then have d: "?m \<le> d" "d \<le> today" by simp_all
    note c = cell_of_day[OF g(3) d]
    show "if d < ?start
          then g ! nat (weekday d) ! nat ((d - ?m) div 7) = ascii '' ''
          else \<exists>s. local_streak (map_of (window_counts logged ?start today)) d s
                 \<and> g ! nat (weekday d) ! nat ((d - ?m) div 7) = stage_for_count draw s"
    proof (cases "d < ?start")
      case True
      with c out_window_cell[of d ?start today draw streaks] show ?thesis by simp
    next
      case False
      then have "?start \<le> d" by simp
      from in_window_cell[OF g(4) this d(2), of draw] c False show ?thesis by auto
    qed
  qed
  from g(1) mon len cols days show ?thesis by blast
qed

theorem forest_grid_shape_witness:
  "0 < (1::int) \<and> valid_date 738889 \<and> MINORD < 738889 - (1 * 7 - 1)
   \<and> (\<exists>g m. forest_grid first_draw 738889 [738886, 738887, 738889, 738889] 1 = Inr g
           \<and> monday_on_or_before (738889 - (1 * 7 - 1)) m
           \<and> length g = 7
           \<and> (\<forall>row\<in>set g. int (length row) = \<lceil>real_of_int (738889 - m + 1) / 7\<rceil>)
           \<and> (\<forall>d\<in>{m..738889}.
                 if d < 738889 - (1 * 7 - 1)
                 then g ! nat (weekday d) ! nat ((d - m) div 7) = ascii '' ''
                 else \<exists>s. local_streak
                            (map_of (window_counts [738886, 738887, 738889, 738889]
                                       (738889 - (1 * 7 - 1)) 738889)) d s
                        \<and> g ! nat (weekday d) ! nat ((d - m) div 7)
                            = stage_for_count first_draw s))"
proof -
  have h1: "0 < (1::int)" by simp
  have h2: "valid_date 738889" by (simp add: valid_date_def MINORD_def MAXORD_def)
  have h3: "MINORD < 738889 - (1 * 7 - 1)" by (simp add: MINORD_def)
  note t = forest_grid_shape[OF h1 h2 h3, of first_draw "[738886, 738887, 738889, 738889]"]
  from h1 h2 h3 t show ?thesis by (intro conjI)
qed

text \<open>
  C9. Every rendered grid has 7 rows of \<open>(today - m + 1 + 6) div 7\<close> cells (none when
  that number is negative), with \<open>m\<close> the Monday on or before \<open>start\<close>, and the cell in row \<open>r\<close> and column \<open>c\<close> belongs to the
  date \<open>m + 7 c + r\<close>. When that date lies strictly before \<open>start\<close> or strictly after
  \<open>end = today\<close> the cell is blank, whatever was logged on that day; otherwise the cell is
  the stage symbol of the local streak of that date.
\<close>

theorem forest_grid_padding:
  assumes "valid_date today" and "start = today - (weeks * 7 - 1)"
    and "MINORD < start" and "start \<le> MAXORD"
  shows "\<exists>g m. forest_grid draw today logged weeks = Inr g
           \<and> monday_on_or_before start m
           \<and> length g = 7
           \<and> (\<forall>row\<in>set g. length row = nat ((today - m + 1 + 6) div 7))
           \<and> (\<forall>r<7. \<forall>c<length (g ! r).
                 if m + (7 * int c + int r) < start \<or> today < m + (7 * int c + int r)
                 then g ! r ! c = ascii '' ''
                 else \<exists>s. local_streak (map_of (window_counts logged start today))
                            (m + (7 * int c + int r)) s
                        \<and> g ! r ! c = stage_for_count draw s)"
proof -
  let ?m = "start - weekday start"
  from forest_grid_ok[OF assms, of draw logged] obtain g streaks where
    g: "forest_grid draw today logged weeks = Inr g"
       "grid_shape g (grid_columns start today)"
       "\<forall>r<7. \<forall>c<grid_columns start today.
           g ! r ! c = cell_of draw streaks start today (?m + (7 * int c + int r))"
       "\<forall>d\<in>{start..today}. \<exists>s. map_of streaks d = Some s
           \<and> local_streak (map_of (window_counts logged start today)) d s" by blast
  from grid_rows[OF g(2)] have len: "length g = 7"
    and rows: "\<forall>row\<in>set g. length row = nat ((today - ?m + 1 + 6) div 7)"
    by (simp_all add: grid_columns_def)
  have cells: "\<forall>r<7. \<forall>c<length (g ! r).
                 if ?m + (7 * int c + int r) < start \<or> today < ?m + (7 * int c + int r)
                 then g ! r ! c = ascii '' ''
                 else \<exists>s. local_streak (map_of (window_counts logged start today))
                            (?m + (7 * int c + int r)) s
                        \<and> g ! r ! c = stage_for_count draw s"
  proof (intro allI impI)
    fix r c :: nat assume r: "r < 7" and "c < length (g ! r)"
    with g(2) have c: "c < grid_columns start today" by (simp add: grid_shape_def)
    let ?d = "?m + (7 * int c + int r)"
    from g(3) r c have e: "g ! r ! c = cell_of draw streaks start today ?d" by blast
    show "if ?d < start \<or> today < ?d then g ! r ! c = ascii '' ''
          else \<exists>s. local_streak (map_of (window_counts logged start today)) ?d s
                 \<and> g ! r ! c = stage_for_count draw s"
    proof (cases "?d < start \<or> today < ?d")
      case True
      with e out_window_cell[OF True, of draw streaks] show ?thesis by simp
    next
      case False
      then have "start \<le> ?d" "?d \<le> today" by simp_all
      from in_window_cell[OF g(4) this, of draw] e False show ?thesis by auto
    qed
  qed
  from g(1) monday_aligned[of start] len rows cells show ?thesis by blast
qed

theorem forest_grid_padding_witness:
  "valid_date 738889 \<and> (738883::int) = 738889 - (1 * 7 - 1) \<and> MINORD < 738883
   \<and> 738883 \<le> MAXORD
   \<and> (\<exists>g m. forest_grid first_draw 738889 [738886, 738887, 738889, 738889] 1 = Inr g
           \<and> monday_on_or_before 738883 m
           \<and> length g = 7
           \<and> (\<forall>row\<in>set g. length row = nat ((738889 - m + 1 + 6) div 7))
           \<and> (\<forall>r<7. \<forall>c<length (g ! r).
                 if m + (7 * int c + int r) < 738883 \<or> 738889 < m + (7 * int c + int r)
                 then g ! r ! c = ascii '' ''
                 else \<exists>s. local_streak
                            (map_of (window_counts [738886, 738887, 738889, 738889]
                                       738883 738889))
                            (m + (7 * int c + int r)) s
                        \<and> g ! r ! c = stage_for_count first_draw s))"
proof -
  have h1: "valid_date 738889" by (simp add: valid_date_def MINORD_def MAXORD_def)
  have h2: "(738883::int) = 738889 - (1 * 7 - 1)" by simp
  have h3: "MINORD < 738883" by (simp add: MINORD_def)
  have h4: "738883 \<le> MAXORD" by (simp add: MAXORD_def)
  note t = forest_grid_padding[OF h1 h2 h3 h4, of first_draw
      "[738886, 738887, 738889, 738889]"]
  from h1 h2 h3 h4 t show ?thesis by (intro conjI)
qed

text \<open>
  C8, as the code has it. The renderer does not validate \<open>weeks\<close>. For \<open>weeks \<le> 0\<close> (and a
  window start that is still a date) it raises no error: it returns the header and a grid
  of 7 rows in which every cell is blank.
\<close>

theorem forest_grid_nonpositive_weeks:
  assumes "weeks \<le> 0" and "valid_date today" and "today - (weeks * 7 - 1) \<le> MAXORD"
  shows "\<exists>g. forest_grid draw today logged weeks = Inr g
           \<and> render_forest draw today logged weeks = Inr (forest_text weeks g)
           \<and> length g = 7
           \<and> (\<forall>row\<in>set g. \<forall>cell\<in>set row. cell = ascii '' '')"
proof -
  let ?start = "today - (weeks * 7 - 1)"
  let ?m = "?start - weekday ?start"
  from assms(1) have gt: "today < ?start" by simp
  with assms(2) have lo: "MINORD < ?start" by (simp add: valid_date_def)
  from forest_grid_ok[OF assms(2) refl lo assms(3), of draw logged] obtain g streaks where
    g: "forest_grid draw today logged weeks = Inr g"
       "grid_shape g (grid_columns ?start today)"
       "\<forall>r<7. \<forall>c<grid_columns ?start today.
           g ! r ! c = cell_of draw streaks ?start today (?m + (7 * int c + int r))" by blast
  from grid_rows[OF g(2)] have len: "length g = 7"
    and rows: "\<forall>row\<in>set g. length row = grid_columns ?start today" by simp_all
  have blank: "\<forall>row\<in>set g. \<forall>cell\<in>set row. cell = ascii '' ''"
  proof (intro ballI)
    fix row cell assume row: "row \<in> set g" and cell: "cell \<in> set row"
    from row len obtain r where r: "r < 7" "g ! r = row" by (auto simp: in_set_conv_nth)
    from cell obtain c where c: "c < length row" "row ! c = cell"
      by (auto simp: in_set_conv_nth)
    from rows row c(1) have c': "c < grid_columns ?start today" by simp
    let ?d = "?m + (7 * int c + int r)"
    from g(3) r(1) c' have "g ! r ! c = cell_of draw streaks ?start today ?d" by blast
    moreover from gt have "?d < ?start \<or> today < ?d" by linarith
    ultimately have "g ! r ! c = ascii '' ''" using out_window_cell by simp
    with r(2) c(2) show "cell = ascii '' ''" by simp
  qed
  have "render_forest draw today logged weeks = Inr (forest_text weeks g)"
    using g(1) by (simp add: render_forest_def)
  with g(1) len blank show ?thesis by blast
qed

theorem forest_grid_nonpositive_weeks_witness:
  "(0::int) \<le> 0 \<and> valid_date 738889 \<and> 738889 - (0 * 7 - 1) \<le> MAXORD
   \<and> (\<exists>g. forest_grid first_draw 738889 [738886, 738889] 0 = Inr g
          \<and> render_forest first_draw 738889 [738886, 738889] 0 = Inr (forest_text 0 g)
          \<and> length g = 7
          \<and> (\<forall>row\<in>set g. \<forall>cell\<in>set row. cell = ascii '' ''))"
proof -
  have h1: "(0::int) \<le> 0" by simp
  have h2: "valid_date 738889" by (simp add: valid_date_def MINORD_def MAXORD_def)
  have h3: "738889 - (0 * 7 - 1) \<le> MAXORD" by (simp add: MAXORD_def)
  note t = forest_grid_nonpositive_weeks[OF h1 h2 h3, of first_draw "[738886, 738889]"]
  from h1 h2 h3 t show ?thesis by (intro conjI)
qed

text \<open>
  The claim C8 as stated fails: on 2024-01-04 with an empty table and \<open>weeks = 0\<close> the
  renderer returns a grid of seven rows of one blank cell each, not an error.
\<close>

theorem render_forest_zero_weeks_counterexample:
  "forest_grid first_draw 738889 [] 0 = Inr (replicate 7 [ascii '' ''])
   \<and> render_forest first_draw 738889 [] 0
       = Inr (forest_text 0 (replicate 7 [ascii '' '']))"
proof -
  have g: "forest_grid first_draw 738889 [] 0 = Inr (replicate 7 [ascii '' ''])"
    by (simp add: forest_grid_def build_counts_def count_rows_def day_streaks_def
        build_grid_def weekday_def date_minus_def date_plus_def valid_date_def
        MINORD_def MAXORD_def grid_set_def py_index_def Let_def upto.simps replicate7
        list_update_numeral)
  then show ?thesis by (simp add: render_forest_def)
qed

lemma ascii_dot: "ascii ''.'' = [46]"
  by (simp add: ascii_def)

lemma choice_member:
  "\<forall>k>0. draw seed k < k \<Longrightarrow> seq \<noteq> [] \<Longrightarrow> choice draw seed seq \<in> set seq"
  by (simp add: choice_def)

lemma palettes_nonempty:
  "SEED_LIST \<noteq> []" "SAPLING_LIST \<noteq> []" "TREE_LIST \<noteq> []" "BUG_LIST \<noteq> []"
  "WOODLAND_ANIMAL_LIST \<noteq> []"
  by (simp_all add: SEED_LIST_def SAPLING_LIST_def TREE_LIST_def BUG_LIST_def
      WOODLAND_ANIMAL_LIST_def)

lemma dot_not_in_palettes:
  "ascii ''.'' \<notin> set (SEED_LIST @ SAPLING_LIST @ TREE_LIST @ BUG_LIST @ WOODLAND_ANIMAL_LIST)"
  by (simp add: ascii_dot SEED_LIST_def SAPLING_LIST_def TREE_LIST_def BUG_LIST_def
      WOODLAND_ANIMAL_LIST_def)

lemma map_of_keyed:
  "map_of (map (\<lambda>k. (k, f k)) xs) k = (if k \<in> set xs then Some (f k) else None)"
  by (induction xs) auto

lemma window_counts_lookup:
  "start \<le> d \<Longrightarrow> d \<le> end \<Longrightarrow>
   map_of (window_counts logged start end) d = Some (int (count_list logged d))"
  by (simp add: window_counts_def map_of_keyed)

lemma local_streak_zero:
  "m d = Some 0 \<Longrightarrow> local_streak m d s \<Longrightarrow> s = 0"
  by (simp add: local_streak_def)

text \<open>
  C4. For a generator whose draw stays below its bound, the stage selector returns the
  fixed empty glyph \<^verbatim>\<open>.\<close> for \<open>n \<le> 0\<close>, a symbol of the seed palette for \<open>n = 1\<close>, of the
  sapling palette for \<open>n = 2\<close>, of the tree palette for \<open>n = 3\<close>, of the insect palette for
  \<open>n = 4\<close> and of the animal palette for every \<open>n \<ge> 5\<close>. The empty glyph is in no palette,
  and a day inside the window on which nothing was logged renders as the empty glyph.
\<close>

theorem stage_for_count_tiers:
  assumes "\<forall>k>0. draw RAND_SEED k < k"
  shows "(n \<le> 0 \<longrightarrow> stage_for_count draw n = ascii ''.'')
       \<and> (n = 1 \<longrightarrow> stage_for_count draw n \<in> set SEED_LIST)
       \<and> (n = 2 \<longrightarrow> stage_for_count draw n \<in> set SAPLING_LIST)
       \<and> (n = 3 \<longrightarrow> stage_for_count draw n \<in> set TREE_LIST)
       \<and> (n = 4 \<longrightarrow> stage_for_count draw n \<in> set BUG_LIST)
       \<and> (5 \<le> n \<longrightarrow> stage_for_count draw n \<in> set WOODLAND_ANIMAL_LIST)
       \<and> ascii ''.'' \<notin> set (SEED_LIST @ SAPLING_LIST @ TREE_LIST @ BUG_LIST
                               @ WOODLAND_ANIMAL_LIST)
       \<and> (valid_date today \<and> start = today - (weeks * 7 - 1) \<and> MINORD < start
            \<and> start \<le> d \<and> d \<le> today \<and> count_list logged d = 0 \<longrightarrow>
          (\<exists>g. forest_grid draw today logged weeks = Inr g
             \<and> g ! nat (weekday d) ! nat ((d - (start - weekday start)) div 7)
                 = ascii ''.''))"
proof -
  note mem = choice_member[of draw RAND_SEED, OF assms]
  have t0: "n \<le> 0 \<longrightarrow> stage_for_count draw n = ascii ''.''"
    by (simp add: stage_for_count_def)
  have t1: "n = 1 \<longrightarrow> stage_for_count draw n \<in> set SEED_LIST"
    using mem[OF palettes_nonempty(1)] by (simp add: stage_for_count_def)
  have t2: "n = 2 \<longrightarrow> stage_for_count draw n \<in> set SAPLING_LIST"
    using mem[OF palettes_nonempty(2)] by (simp add: stage_for_count_def)
  have t3: "n = 3 \<longrightarrow> stage_for_count draw n \<in> set TREE_LIST"
    using mem[OF palettes_nonempty(3)] by (simp add: stage_for_count_def)
  have t4: "n = 4 \<longrightarrow> stage_for_count draw n \<in> set BUG_LIST"
    using mem[OF palettes_nonempty(4)] by (simp add: stage_for_count_def)
  have t5: "5 \<le> n \<longrightarrow> stage_for_count draw n \<in> set WOODLAND_ANIMAL_LIST"
    using mem[OF palettes_nonempty(5)] by (simp add: stage_for_count_def)
  have rd: "valid_date today \<and> start = today - (weeks * 7 - 1) \<and> MINORD < start
            \<and> start \<le> d \<and> d \<le> today \<and> count_list logged d = 0 \<longrightarrow>
          (\<exists>g. forest_grid draw today logged weeks = Inr g
             \<and> g ! nat (weekday d) ! nat ((d - (start - weekday start)) div 7)
                 = ascii ''.'')"
  proof
    assume a: "valid_date today \<and> start = today - (weeks * 7 - 1) \<and> MINORD < start
            \<and> start \<le> d \<and> d \<le> today \<and> count_list logged d = 0"
    then have vt: "valid_date today" and st: "start = today - (weeks * 7 - 1)"
      and lo: "MINORD < start" and d: "start \<le> d" "d \<le> today"
      and z: "count_list logged d = 0" by simp_all
    from d vt have hi: "start \<le> MAXORD" by (simp add: valid_date_def)
    from forest_grid_ok[OF vt st lo hi, of draw logged] obtain g streaks where
      g: "forest_grid draw today logged weeks = Inr g"
         "\<forall>r<7. \<forall>c<grid_columns start today.
             g ! r ! c = cell_of draw streaks start today
                           (start - weekday start + (7 * int c + int r))"
         "\<forall>d\<in>{start..today}. \<exists>s. map_of streaks d = Some s
             \<and> local_streak (map_of (window_counts logged start today)) d s" by blast
    have md: "start - weekday start \<le> d" using d(1) weekday_range[of start] by simp
    from in_window_cell[OF g(3) d, of draw] obtain s where
      s: "local_streak (map_of (window_counts logged start today)) d s"
         "cell_of draw streaks start today d = stage_for_count draw s" by blast
    from window_counts_lookup[OF d, of logged] z
    have "map_of (window_counts logged start today) d = Some 0" by simp
    from local_streak_zero[OF this s(1)] have "s = 0" .
    with s(2) have "cell_of draw streaks start today d = ascii ''.''"
      by (simp add: stage_for_count_def)
    with cell_of_day[OF g(2) md d(2)] g(1)
    show "\<exists>g. forest_grid draw today logged weeks = Inr g
             \<and> g ! nat (weekday d) ! nat ((d - (start - weekday start)) div 7) = ascii ''.''"
      by auto
  qed
  from t0 t1 t2 t3 t4 t5 dot_not_in_palettes rd show ?thesis by blast
qed

theorem stage_for_count_tiers_witness:
  "stage_for_count first_draw 0 = ascii ''.''
   \<and> stage_for_count first_draw 5 \<in> set WOODLAND_ANIMAL_LIST
   \<and> valid_date 738889 \<and> MINORD < 738883 \<and> count_list [738886, 738887, 738889] (738888::int) = 0
   \<and> (\<exists>g. forest_grid first_draw 738889 [738886, 738887, 738889] 1 = Inr g
          \<and> g ! nat (weekday 738888) ! nat ((738888 - (738883 - weekday 738883)) div 7)
              = ascii ''.'')"
proof -
  have h: "\<forall>k>0. first_draw RAND_SEED k < k" by (simp add: first_draw_def)
  have v: "valid_date 738889" by (simp add: valid_date_def MINORD_def MAXORD_def)
  have lo: "MINORD < 738883" by (simp add: MINORD_def)
  have z: "count_list [738886, 738887, 738889] (738888::int) = 0" by simp
  from stage_for_count_tiers[of first_draw 0, OF h]
  have a: "stage_for_count first_draw 0 = ascii ''.''" by simp
  from stage_for_count_tiers[of first_draw 5 738889 738883 1 738888
      "[738886, 738887, 738889]", OF h]
    v lo z
  have b: "stage_for_count first_draw 5 \<in> set WOODLAND_ANIMAL_LIST"
    and c: "\<exists>g. forest_grid first_draw 738889 [738886, 738887, 738889] 1 = Inr g
          \<and> g ! nat (weekday 738888) ! nat ((738888 - (738883 - weekday 738883)) div 7)
              = ascii ''.''" by simp_all
  from a b c v lo z show ?thesis by (intro conjI)
qed

text \<open>
  C5, as the code has it. Neither \<open>compute_streaks\<close> nor the renderer takes the current
  date as an argument: both read the wall clock, and their result depends on that ambient
  date. Of the result of \<open>compute_streaks\<close> the longest streak is the same on every
  ambient date, while the current streak is the one anchored at the ambient today or
  yesterday. The grid of the renderer is that of the window that ends on the ambient date:
  the cell of the ambient date is the stage symbol of its local streak, and every cell of
  a later date is blank.
\<close>

theorem ambient_date_dependence:
  assumes "\<forall>d\<in>set days. interior d"
    and "MINORD < today1" and "today1 \<le> MAXORD"
    and "MINORD < today2" and "today2 \<le> MAXORD"
    and "0 < weeks" and "start = today1 - (weeks * 7 - 1)" and "MINORD < start"
  shows "(\<exists>current1 current2 longest.
            compute_streaks today1 days = Inr (current1, longest)
          \<and> compute_streaks today2 days = Inr (current2, longest)
          \<and> current_spec (set days) today1 current1
          \<and> current_spec (set days) today2 current2)
       \<and> (\<exists>g. forest_grid draw today1 logged weeks = Inr g
            \<and> length g = 7
            \<and> (\<exists>s. local_streak (map_of (window_counts logged start today1)) today1 s
                  \<and> g ! nat (weekday today1)
                      ! nat ((today1 - (start - weekday start)) div 7)
                      = stage_for_count draw s)
            \<and> (\<forall>r<7. \<forall>c<length (g ! r).
                  today1 < start - weekday start + (7 * int c + int r) \<longrightarrow>
                  g ! r ! c = ascii '' ''))"
proof
  show "\<exists>current1 current2 longest.
            compute_streaks today1 days = Inr (current1, longest)
          \<and> compute_streaks today2 days = Inr (current2, longest)
          \<and> current_spec (set days) today1 current1
          \<and> current_spec (set days) today2 current2"
  proof (cases "days = []")
    case True
    then show ?thesis by (simp add: compute_streaks_def current_spec_def)
  next
    case False
    from compute_streaks_nonempty[OF assms(1) False assms(2,3)] obtain c1 where
      c1: "compute_streaks today1 days = Inr (c1, Max (run_lengths (set days)))"
          "current_spec (set days) today1 c1" by blast
    from compute_streaks_nonempty[OF assms(1) False assms(4,5)] obtain c2 where
      c2: "compute_streaks today2 days = Inr (c2, Max (run_lengths (set days)))"
          "current_spec (set days) today2 c2" by blast
    from c1 c2 show ?thesis by blast
  qed
next
  let ?m = "start - weekday start"
  have vt: "valid_date today1" using assms(2,3) by (simp add: valid_date_def)
  from assms(6,7) have le: "start \<le> today1" by simp
  with assms(3) have hi: "start \<le> MAXORD" by simp
  from forest_grid_ok[OF vt assms(7,8) hi, of draw logged] obtain g streaks where
    g: "forest_grid draw today1 logged weeks = Inr g"
       "grid_shape g (grid_columns start today1)"
       "\<forall>r<7. \<forall>c<grid_columns start today1.
           g ! r ! c = cell_of draw streaks start today1 (?m + (7 * int c + int r))"
       "\<forall>d\<in>{start..today1}. \<exists>s. map_of streaks d = Some s
           \<and> local_streak (map_of (window_counts logged start today1)) d s" by blast
  from grid_rows[OF g(2)] have len: "length g = 7" by simp
  have md: "?m \<le> today1" using le weekday_range[of start] by simp
  from in_window_cell[OF g(4) le order_refl, of draw] obtain s where
    s: "local_streak (map_of (window_counts logged start today1)) today1 s"
       "cell_of draw streaks start today1 today1 = stage_for_count draw s" by blast
  from cell_of_day[OF g(3) md order_refl] s(2)
  have tc: "g ! nat (weekday today1) ! nat ((today1 - ?m) div 7) = stage_for_count draw s"
    by simp
  have later: "\<forall>r<7. \<forall>c<length (g ! r).
                  today1 < ?m + (7 * int c + int r) \<longrightarrow> g ! r ! c = ascii '' ''"
  proof (intro allI impI)
    fix r c :: nat assume r: "r < 7" and "c < length (g ! r)"
      and lt: "today1 < ?m + (7 * int c + int r)"
    with g(2) have c: "c < grid_columns start today1" by (simp add: grid_shape_def)
    with g(3) r have "g ! r ! c = cell_of draw streaks start today1 (?m + (7 * int c + int r))"
      by blast
    with lt show "g ! r ! c = ascii '' ''" by (simp add: cell_of_def)
  qed
  from g(1) len s(1) tc later
  show "\<exists>g. forest_grid draw today1 logged weeks = Inr g
            \<and> length g = 7
            \<and> (\<exists>s. local_streak (map_of (window_counts logged start today1)) today1 s
                  \<and> g ! nat (weekday today1) ! nat ((today1 - ?m) div 7)
                      = stage_for_count draw s)
            \<and> (\<forall>r<7. \<forall>c<length (g ! r).
                  today1 < ?m + (7 * int c + int r) \<longrightarrow> g ! r ! c = ascii '' '')"
    by blast
qed

theorem ambient_date_dependence_witness:
  "interior 738889 \<and> MINORD < 738889 \<and> 738889 \<le> MAXORD \<and> MINORD < 738900
   \<and> 738900 \<le> MAXORD \<and> 0 < (1::int) \<and> (738883::int) = 738889 - (1 * 7 - 1)
   \<and> MINORD < 738883
   \<and> (\<exists>current1 current2 longest.
            compute_streaks 738889 [738889] = Inr (current1, longest)
          \<and> compute_streaks 738900 [738889] = Inr (current2, longest)
          \<and> current_spec (set [738889]) 738889 current1
          \<and> current_spec (set [738889]) 738900 current2)
   \<and> (\<exists>g. forest_grid first_draw 738889 [738889] 1 = Inr g
            \<and> length g = 7
            \<and> (\<exists>s. local_streak (map_of (window_counts [738889] 738883 738889)) 738889 s
                  \<and> g ! nat (weekday 738889)
                      ! nat ((738889 - (738883 - weekday 738883)) div 7)
                      = stage_for_count first_draw s)
            \<and> (\<forall>r<7. \<forall>c<length (g ! r).
                  738889 < 738883 - weekday 738883 + (7 * int c + int r) \<longrightarrow>
                  g ! r ! c = ascii '' ''))"
proof -
  have i: "interior 738889" by (simp add: interior_def MINORD_def MAXORD_def)
  then have h: "\<forall>d\<in>set [738889]. interior d" by simp
  have t: "MINORD < 738889" "738889 \<le> MAXORD" "MINORD < 738900" "738900 \<le> MAXORD"
    by (simp_all add: MINORD_def MAXORD_def)
  have w: "0 < (1::int)" "(738883::int) = 738889 - (1 * 7 - 1)" "MINORD < 738883"
    by (simp_all add: MINORD_def)
  note r = ambient_date_dependence[OF h t w, of first_draw "[738889]"]
  from i t w r show ?thesis by (intro conjI) blast+
qed

lemma build_counts_jan04: "build_counts [738889] 738883 738889
   = Inr [(738883, 0), (738884, 0), (738885, 0), (738886, 0), (738887, 0), (738888, 0),
          (738889, 1)]"
  by (simp add: build_counts_def count_rows_def date_plus_def valid_date_def
      MINORD_def MAXORD_def upto.simps)

lemma day_streaks_jan04:
  "day_streaks [(738883, 0), (738884, 0), (738885, 0), (738886, 0), (738887, 0), (738888, 0),
                (738889, 1)]
   = Inr [(738883, 0), (738884, 0), (738885, 0), (738886, 0), (738887, 0), (738888, 0),
          (738889, 1)]"
  by (simp add: day_streaks_def walk_back.simps date_minus_def valid_date_def MINORD_def
        MAXORD_def)

lemma build_grid_jan04:
  "build_grid first_draw
     [(738883, 0), (738884, 0), (738885, 0), (738886, 0), (738887, 0), (738888, 0),
      (738889, 1)] 738883 738889
   = Inr [[ascii '' '', ascii ''.''], [ascii '' '', ascii ''.''], [ascii '' '', ascii ''.''],
          [ascii '' '', [0x1FAD8]], [ascii ''.'', ascii '' ''], [ascii ''.'', ascii '' ''],
          [ascii ''.'', ascii '' '']]"
  by (simp add: build_grid_def weekday_def date_minus_def date_plus_def valid_date_def
        MINORD_def MAXORD_def grid_set_def py_index_def Let_def upto.simps replicate7
        list_update_numeral stage_for_count_def choice_def first_draw_def SEED_LIST_def
        replicate2)

lemma build_counts_jan15: "build_counts [738889] 738894 738900
   = Inr [(738894, 0), (738895, 0), (738896, 0), (738897, 0), (738898, 0), (738899, 0),
          (738900, 0)]"
  by (simp add: build_counts_def count_rows_def date_plus_def valid_date_def
      MINORD_def MAXORD_def upto.simps)

lemma day_streaks_jan15:
  "day_streaks [(738894, 0), (738895, 0), (738896, 0), (738897, 0), (738898, 0), (738899, 0),
                (738900, 0)]
   = Inr [(738894, 0), (738895, 0), (738896, 0), (738897, 0), (738898, 0), (738899, 0),
          (738900, 0)]"
  by (simp add: day_streaks_def walk_back.simps date_minus_def valid_date_def MINORD_def
        MAXORD_def)

lemma build_grid_jan15:
  "build_grid first_draw
     [(738894, 0), (738895, 0), (738896, 0), (738897, 0), (738898, 0), (738899, 0),
      (738900, 0)] 738894 738900
   = Inr [[ascii '' '', ascii ''.''], [ascii ''.'', ascii '' ''], [ascii ''.'', ascii '' ''],
          [ascii ''.'', ascii '' ''], [ascii ''.'', ascii '' ''], [ascii ''.'', ascii '' ''],
          [ascii ''.'', ascii '' '']]"
  by (simp add: build_grid_def weekday_def date_minus_def date_plus_def valid_date_def
        MINORD_def MAXORD_def grid_set_def py_index_def Let_def upto.simps replicate7
        list_update_numeral stage_for_count_def replicate2)

text \<open>
  The claim C5 as stated fails for both functions. The same list of days gives the result
  \<open>(1, 1)\<close> when the clock reads 2024-01-04 and \<open>(0, 1)\<close> when it reads 2024-01-15; the
  same table and number of weeks render to two different grids on these two dates.
\<close>

theorem ambient_date_counterexample:
  "compute_streaks 738889 [738889] = Inr (1, 1)
   \<and> compute_streaks 738900 [738889] = Inr (0, 1)
   \<and> forest_grid first_draw 738889 [738889] 1
       = Inr [[ascii '' '', ascii ''.''], [ascii '' '', ascii ''.''],
              [ascii '' '', ascii ''.''], [ascii '' '', [0x1FAD8]],
              [ascii ''.'', ascii '' ''], [ascii ''.'', ascii '' ''],
              [ascii ''.'', ascii '' '']]
   \<and> forest_grid first_draw 738900 [738889] 1
       = Inr [[ascii '' '', ascii ''.''], [ascii ''.'', ascii '' ''],
              [ascii ''.'', ascii '' ''], [ascii ''.'', ascii '' ''],
              [ascii ''.'', ascii '' ''], [ascii ''.'', ascii '' ''],
              [ascii ''.'', ascii '' '']]
   \<and> compute_streaks 738889 [738889] \<noteq> compute_streaks 738900 [738889]
   \<and> forest_grid first_draw 738889 [738889] 1 \<noteq> forest_grid first_draw 738900 [738889] 1"
proof -
  have c1: "compute_streaks 738889 [738889] = Inr (1, 1)"
    by (simp add: compute_streaks_def date_minus_def date_plus_def valid_date_def
        MINORD_def MAXORD_def)
  have c2: "compute_streaks 738900 [738889] = Inr (0, 1)"
    by (simp add: compute_streaks_def date_minus_def date_plus_def valid_date_def
        MINORD_def MAXORD_def)
  have d1: "date_minus 738889 (1 * 7 - 1) = Inr 738883"
    by (simp add: date_minus_def valid_date_def MINORD_def MAXORD_def)
  have d2: "date_minus 738900 (1 * 7 - 1) = Inr 738894"
    by (simp add: date_minus_def valid_date_def MINORD_def MAXORD_def)
  have g1: "forest_grid first_draw 738889 [738889] 1
       = Inr [[ascii '' '', ascii ''.''], [ascii '' '', ascii ''.''],
              [ascii '' '', ascii ''.''], [ascii '' '', [0x1FAD8]],
              [ascii ''.'', ascii '' ''], [ascii ''.'', ascii '' ''],
              [ascii ''.'', ascii '' '']]"
    using d1 build_counts_jan04 day_streaks_jan04 build_grid_jan04
    by (simp add: forest_grid_def)
  have g2: "forest_grid first_draw 738900 [738889] 1
       = Inr [[ascii '' '', ascii ''.''], [ascii ''.'', ascii '' ''],
              [ascii ''.'', ascii '' ''], [ascii ''.'', ascii '' ''],
              [ascii ''.'', ascii '' ''], [ascii ''.'', ascii '' ''],
              [ascii ''.'', ascii '' '']]"
    using d2 build_counts_jan15 day_streaks_jan15 build_grid_jan15
    by (simp add: forest_grid_def)
  have n1: "compute_streaks 738889 [738889] \<noteq> compute_streaks 738900 [738889]"
    by (simp add: c1 c2)
  have n2: "forest_grid first_draw 738889 [738889] 1 \<noteq> forest_grid first_draw 738900 [738889] 1"
    by (simp add: g1 g2 ascii_def)
  from c1 c2 g1 g2 n1 n2 show ?thesis by (intro conjI)
qed

lemma build_counts_same:
  assumes "\<forall>d\<in>{start..end}. count_list logged1 d = count_list logged2 d"
  shows "build_counts logged1 start end = build_counts logged2 start end"
proof (cases "date_range start [0..end - start]")
  case (Inl e)
  then show ?thesis by (simp add: build_counts_def)
next
  case (Inr keys)
  have "map (\<lambda>d. (d, int (count_list logged1 d))) [start..end]
        = map (\<lambda>d. (d, int (count_list logged2 d))) [start..end]"
    using assms by (intro map_cong) auto
  with build_counts_shape[OF Inr, of logged1] build_counts_shape[OF Inr, of logged2]
  show ?thesis by simp
qed

lemma active_before_unique:
  assumes "active_before m d k" and "active_before m d k'"
  shows "k = k'"
proof (rule ccontr)
  assume ne: "k \<noteq> k'"
  from assms have a: "0 \<le> k" "\<forall>i\<in>{1..k}. active m (d - i)" "\<not> active m (d - (k + 1))"
    and b: "0 \<le> k'" "\<forall>i\<in>{1..k'}. active m (d - i)" "\<not> active m (d - (k' + 1))"
    by (simp_all add: active_before_def)
  from ne consider "k < k'" | "k' < k" by arith
  then show False
  proof cases
    case 1
    with a(1) have "k + 1 \<in> {1..k'}" by simp
    with b(2) have "active m (d - (k + 1))" by blast
    with a(3) show False by simp
  next
    case 2
    with b(1) have "k' + 1 \<in> {1..k}" by simp
    with a(2) have "active m (d - (k' + 1))" by blast
    with b(3) show False by simp
  qed
qed

lemma local_streak_unique:
  assumes "local_streak m d s" and "local_streak m d s'"
  shows "s = s'"
proof (cases "m d = Some 0")
  case True
  with assms show ?thesis by (simp add: local_streak_def)
next
  case False
  with assms have "active_before m d (s - 1)" "active_before m d (s' - 1)"
    by (simp_all add: local_streak_def)
  from active_before_unique[OF this] show ?thesis by simp
qed

lemma stage_for_count_tier:
  "stage_for_count draw n
     = (if n \<le> 0 then ascii ''.'' else choice draw RAND_SEED (tier_palette n))"
  by (simp add: stage_for_count_def tier_palette_def)

lemma tier_palette_tier:
  "0 < n \<Longrightarrow> tier n = tier n' \<Longrightarrow> tier_palette n = tier_palette n'"
proof -
  assume n: "0 < n" and t: "tier n = tier n'"
  consider "n = 1" | "n = 2" | "n = 3" | "n = 4" | "5 \<le> n" using n by arith
  then show ?thesis
  proof cases
    case 1 with t have "n' = 1" by (simp add: tier_def split: if_splits)
    with 1 show ?thesis by simp
  next
    case 2 with t have "n' = 2" by (simp add: tier_def split: if_splits)
    with 2 show ?thesis by simp
  next
    case 3 with t have "n' = 3" by (simp add: tier_def split: if_splits)
    with 3 show ?thesis by simp
  next
    case 4 with t have "n' = 4" by (simp add: tier_def split: if_splits)
    with 4 show ?thesis by simp
  next
    case 5 with t have "5 \<le> n'" by (simp add: tier_def split: if_splits)
    with 5 show ?thesis by (simp add: tier_palette_def)
  qed
qed

lemma same_tier_same_symbol:
  assumes "tier n = tier n'"
  shows "stage_for_count draw n = stage_for_count draw n'"
proof (cases "n \<le> 0")
  case True
  with assms have "n' \<le> 0" by (simp add: tier_def split: if_splits)
  with True show ?thesis by (simp add: stage_for_count_def)
next
  case False
  then have n: "0 < n" by simp
  with assms have "0 < n'" by (simp add: tier_def split: if_splits)
  with n tier_palette_tier[OF n assms] show ?thesis
    by (simp add: stage_for_count_tier)
qed

text \<open>
  C7. The symbol of the stage selector is fixed by the tier of its argument and the
  constant seed: two calls whose arguments are in the same tier, in particular two calls
  with the same \<open>n\<close>, return the same symbol. In every rendered grid of 7 rows the cell of
  a day of the window is the empty glyph when the local streak of the day is 0 and
  otherwise the choice, seeded with \<open>RAND_SEED\<close>, from the palette of the tier of that
  streak, whatever the day, its place in the grid and the reference date. Consequently two
  tables with the same count on every day of the window render, on the same reference
  date, to the same grid and the same text.
\<close>

theorem stage_for_count_deterministic:
  "(tier n = tier n' \<longrightarrow> stage_for_count draw n = stage_for_count draw n')
   \<and> (valid_date today \<and> start = today - (weeks * 7 - 1) \<and> MINORD < start
        \<and> start \<le> MAXORD \<longrightarrow>
      (\<exists>g. forest_grid draw today logged weeks = Inr g
         \<and> length g = 7
         \<and> (\<forall>row\<in>set g. length row = grid_columns start today)
         \<and> (\<forall>d\<in>{start..today}.
               (\<exists>s. local_streak (map_of (window_counts logged start today)) d s)
             \<and> (\<forall>s. local_streak (map_of (window_counts logged start today)) d s \<longrightarrow>
                   g ! nat (weekday d) ! nat ((d - (start - weekday start)) div 7)
                     = (if s \<le> 0 then ascii ''.''
                        else choice draw RAND_SEED (tier_palette s))))))
   \<and> ((\<forall>d\<in>{today - (weeks * 7 - 1)..today}. count_list logged1 d = count_list logged2 d)
        \<longrightarrow> forest_grid draw today logged1 weeks = forest_grid draw today logged2 weeks
          \<and> render_forest draw today logged1 weeks = render_forest draw today logged2 weeks)"
proof (intro conjI impI)
  assume "tier n = tier n'"
  then show "stage_for_count draw n = stage_for_count draw n'"
    by (rule same_tier_same_symbol)
next
  assume a: "valid_date today \<and> start = today - (weeks * 7 - 1) \<and> MINORD < start
        \<and> start \<le> MAXORD"
  then have vt: "valid_date today" and st: "start = today - (weeks * 7 - 1)"
    and lo: "MINORD < start" and hi: "start \<le> MAXORD" by simp_all
  let ?W = "map_of (window_counts logged start today)"
  let ?m = "start - weekday start"
  from forest_grid_ok[OF vt st lo hi, of draw logged] obtain g streaks where
    g: "forest_grid draw today logged weeks = Inr g"
       "grid_shape g (grid_columns start today)"
       "\<forall>r<7. \<forall>c<grid_columns start today.
           g ! r ! c = cell_of draw streaks start today (?m + (7 * int c + int r))"
       "\<forall>d\<in>{start..today}. \<exists>s. map_of streaks d = Some s \<and> local_streak ?W d s" by blast
  from grid_rows[OF g(2)] have len: "length g = 7"
    and rows: "\<forall>row\<in>set g. length row = grid_columns start today" by simp_all
  have days: "\<forall>d\<in>{start..today}.
               (\<exists>s. local_streak ?W d s)
             \<and> (\<forall>s. local_streak ?W d s \<longrightarrow>
                   g ! nat (weekday d) ! nat ((d - ?m) div 7)
                     = (if s \<le> 0 then ascii ''.''
                        else choice draw RAND_SEED (tier_palette s)))"
  proof
    fix d assume "d \<in> {start..today}"
    then have d: "start \<le> d" "d \<le> today" by simp_all
    have md: "?m \<le> d" using d(1) weekday_range[of start] by simp
    from in_window_cell[OF g(4) d, of draw] obtain s0 where
      s0: "local_streak ?W d s0" "cell_of draw streaks start today d = stage_for_count draw s0"
      by blast
    from cell_of_day[OF g(3) md d(2)] s0(2)
    have c: "g ! nat (weekday d) ! nat ((d - ?m) div 7) = stage_for_count draw s0" by simp
    have "\<forall>s. local_streak ?W d s \<longrightarrow>
                   g ! nat (weekday d) ! nat ((d - ?m) div 7)
                     = (if s \<le> 0 then ascii ''.''
                        else choice draw RAND_SEED (tier_palette s))"
    proof (intro allI impI)
      fix s assume "local_streak ?W d s"
      from local_streak_unique[OF this s0(1)] have "s = s0" .
      with c show "g ! nat (weekday d) ! nat ((d - ?m) div 7)
                     = (if s \<le> 0 then ascii ''.''
                        else choice draw RAND_SEED (tier_palette s))"
        by (simp add: stage_for_count_tier)
    qed
    with s0(1) show "(\<exists>s. local_streak ?W d s)
             \<and> (\<forall>s. local_streak ?W d s \<longrightarrow>
                   g ! nat (weekday d) ! nat ((d - ?m) div 7)
                     = (if s \<le> 0 then ascii ''.''
                        else choice draw RAND_SEED (tier_palette s)))" by blast
  qed
  from g(1) len rows days
  show "\<exists>g. forest_grid draw today logged weeks = Inr g
         \<and> length g = 7
         \<and> (\<forall>row\<in>set g. length row = grid_columns start today)
         \<and> (\<forall>d\<in>{start..today}.
               (\<exists>s. local_streak ?W d s)
             \<and> (\<forall>s. local_streak ?W d s \<longrightarrow>
                   g ! nat (weekday d) ! nat ((d - ?m) div 7)
                     = (if s \<le> 0 then ascii ''.''
                        else choice draw RAND_SEED (tier_palette s))))" by blast
next
  assume a: "\<forall>d\<in>{today - (weeks * 7 - 1)..today}. count_list logged1 d = count_list logged2 d"
  show g: "forest_grid draw today logged1 weeks = forest_grid draw today logged2 weeks"
  proof (cases "date_minus today (weeks * 7 - 1)")
    case (Inl e)
    then show ?thesis by (simp add: forest_grid_def)
  next
    case (Inr start)
    then have "start = today - (weeks * 7 - 1)"
      by (auto simp: date_minus_def split: if_splits)
    with a have "build_counts logged1 start today = build_counts logged2 start today"
      by (intro build_counts_same) simp
    with Inr show ?thesis by (simp add: forest_grid_def)
  qed
  then show "render_forest draw today logged1 weeks = render_forest draw today logged2 weeks"
    by (simp add: render_forest_def)
qed

theorem stage_for_count_deterministic_witness:
  "tier 5 = tier 9
   \<and> stage_for_count first_draw 5 = stage_for_count first_draw 9
   \<and> valid_date 738889 \<and> (738883::int) = 738889 - (1 * 7 - 1) \<and> MINORD < 738883
   \<and> 738883 \<le> MAXORD
   \<and> (\<exists>g. forest_grid first_draw 738889 [738886, 738887, 738889, 738889] 1 = Inr g
         \<and> length g = 7
         \<and> (\<forall>row\<in>set g. length row = grid_columns 738883 738889)
         \<and> (\<forall>d\<in>{738883..738889}.
               (\<exists>s. local_streak
                       (map_of (window_counts [738886, 738887, 738889, 738889]
                                  738883 738889)) d s)
             \<and> (\<forall>s. local_streak
                       (map_of (window_counts [738886, 738887, 738889, 738889]
                                  738883 738889)) d s \<longrightarrow>
                   g ! nat (weekday d) ! nat ((d - (738883 - weekday 738883)) div 7)
                     = (if s \<le> 0 then ascii ''.''
                        else choice first_draw RAND_SEED (tier_palette s)))))
   \<and> forest_grid first_draw 738889 [738889, 738700] 1
       = forest_grid first_draw 738889 [738889] 1
   \<and> render_forest first_draw 738889 [738889, 738700] 1
       = render_forest first_draw 738889 [738889] 1"
proof -
  have t: "tier 5 = tier 9" by (simp add: tier_def)
  have h1: "valid_date 738889" by (simp add: valid_date_def MINORD_def MAXORD_def)
  have h2: "(738883::int) = 738889 - (1 * 7 - 1)" by simp
  have h3: "MINORD < 738883" by (simp add: MINORD_def)
  have h4: "738883 \<le> MAXORD" by (simp add: MAXORD_def)
  have h: "\<forall>d\<in>{738889 - (1 * 7 - 1)..738889}.
             count_list [738889, 738700] d = count_list [738889] (d::int)"
    by auto
  from stage_for_count_deterministic[of 5 9 first_draw] t
  have a: "stage_for_count first_draw 5 = stage_for_count first_draw 9" by blast
  from stage_for_count_deterministic[of 5 9 first_draw 738889 738883 1
      "[738886, 738887, 738889, 738889]"] h1 h2 h3 h4
  have b: "\<exists>g. forest_grid first_draw 738889 [738886, 738887, 738889, 738889] 1 = Inr g
         \<and> length g = 7
         \<and> (\<forall>row\<in>set g. length row = grid_columns 738883 738889)
         \<and> (\<forall>d\<in>{738883..738889}.
               (\<exists>s. local_streak
                       (map_of (window_counts [738886, 738887, 738889, 738889]
                                  738883 738889)) d s)
             \<and> (\<forall>s. local_streak
                       (map_of (window_counts [738886, 738887, 738889, 738889]
                                  738883 738889)) d s \<longrightarrow>
                   g ! nat (weekday d) ! nat ((d - (738883 - weekday 738883)) div 7)
                     = (if s \<le> 0 then ascii ''.''
                        else choice first_draw RAND_SEED (tier_palette s))))" by blast
  from stage_for_count_deterministic[of 5 9 first_draw 738889 "738883::int" 1
      "[]" "[738889, 738700]" "[738889]"] h
  have c: "forest_grid first_draw 738889 [738889, 738700] 1
             = forest_grid first_draw 738889 [738889] 1"
    and d: "render_forest first_draw 738889 [738889, 738700] 1
             = render_forest first_draw 738889 [738889] 1" by blast+
  from t a h1 h2 h3 h4 b c d show ?thesis by (intro conjI)
qed

section \<open>A worked example\<close>

text \<open>
  One week rendered on 2024-01-04 (day 738889), with one row logged on 2024-01-01, one on
  2024-01-02 and two on 2024-01-04: the window starts on Friday 2023-12-29, the grid has
  two columns, and with the sample generator the streaks 1, 2, 0, 1 of January render as
  the first seed, the first sapling, the empty glyph and the first seed.
\<close>

lemma build_counts_example: "build_counts [738886, 738887, 738889, 738889] 738883 738889
   = Inr [(738883, 0), (738884, 0), (738885, 0), (738886, 1), (738887, 1), (738888, 0), (738889, 2)]"
  by (simp add: build_counts_def count_rows_def date_plus_def valid_date_def
      MINORD_def MAXORD_def upto.simps)

lemma day_streaks_example: "day_streaks [(738883, 0), (738884, 0), (738885, 0), (738886, 1), (738887, 1), (738888, 0), (738889, 2)]
   = Inr [(738883, 0), (738884, 0), (738885, 0), (738886, 1), (738887, 2), (738888, 0), (738889, 1)]"
  by (simp add: day_streaks_def walk_back.simps date_minus_def valid_date_def MINORD_def
        MAXORD_def)

lemma build_grid_example: "build_grid first_draw [(738883, 0), (738884, 0), (738885, 0), (738886, 1), (738887, 2), (738888, 0), (738889, 1)] 738883 738889
  = Inr [[ascii '' '', [0x1FAD8]], [ascii '' '', [0x1F331]], [ascii '' '', ascii ''.''],
         [ascii '' '', [0x1FAD8]], [ascii ''.'', ascii '' ''], [ascii ''.'', ascii '' ''],
         [ascii ''.'', ascii '' '']]"
  by (simp add: build_grid_def weekday_def date_minus_def date_plus_def valid_date_def
        MINORD_def MAXORD_def grid_set_def py_index_def Let_def upto.simps replicate7
        list_update_numeral stage_for_count_def choice_def first_draw_def SEED_LIST_def
        SAPLING_LIST_def nth_append replicate2)

lemma forest_grid_example:
  "forest_grid first_draw 738889 [738886, 738887, 738889, 738889] 1
     = Inr [[ascii '' '', [0x1FAD8]], [ascii '' '', [0x1F331]], [ascii '' '', ascii ''.''],
            [ascii '' '', [0x1FAD8]], [ascii ''.'', ascii '' ''], [ascii ''.'', ascii '' ''],
            [ascii ''.'', ascii '' '']]"
proof -
  have "date_minus 738889 (1 * 7 - 1) = Inr 738883"
    by (simp add: date_minus_def valid_date_def MINORD_def MAXORD_def)
  with build_counts_example day_streaks_example build_grid_example show ?thesis by (simp add: forest_grid_def)
qed

end
